theory Spec2Isabelle
  imports Main "HOL-Library.Word"
begin

section \<open>Fixed-length (120 byte) records: generate_records.py and record_parser.py\<close>

text \<open>
  Both scripts declare the same three \<^verbatim>\<open>construct\<close> structures (HeaderRecord, DataRecord,
  TrailerRecord) and the same adapter ShiftJISString. The generator calls \<^verbatim>\<open>Struct.build\<close>,
  the parser \<^verbatim>\<open>Struct.parse\<close>. The structures are modelled as the source writes them: an
  ordered list of named fields, each field a \<^verbatim>\<open>construct\<close> building block, with one
  generic build and one generic parse over that list.

  Python values: \<^verbatim>\<open>bytes\<close> is a list of 8-bit words, \<^verbatim>\<open>str\<close> a list of Unicode code points,
  \<^verbatim>\<open>int\<close> an unbounded integer. Every raise of the source or of the library is a value
  of the type \<open>error\<close>.
\<close>

type_synonym byte = "8 word"
type_synonym ustr = "nat list"

datatype val = IntV int | StrV ustr | NoneV

datatype error =
    ConstError
  | FormatFieldError
  | StreamError
  | PaddingError
  | StringError
  | UnicodeEncodeError
  | UnicodeDecodeError
  | AttributeError
  | KeyError string
  | ValueError_too_long nat nat
  | ValueError_record_size nat
  | ValueError_unknown_type "int option"
  | OSError

text \<open>
  \<open>ValueError_too_long\<close> is the ValueError of \<^verbatim>\<open>ShiftJISString._encode\<close>,
  \<open>ValueError_record_size\<close> and \<open>ValueError_unknown_type\<close> are the two ValueErrors of
  \<^verbatim>\<open>parse_record\<close>; \<open>OSError\<close> is what a read from the byte source or a write to the byte
  sink raises when the operating system fails it; the others are raised by the library
  (\<^verbatim>\<open>construct\<close>, \<^verbatim>\<open>str.encode\<close>, \<^verbatim>\<open>bytes.decode\<close>, \<^verbatim>\<open>dict\<close> lookup).
\<close>

subsection \<open>The shift\_jis codec\<close>

text \<open>
  The character table of Python's \<^verbatim>\<open>shift_jis\<close> codec is not part of the repository. What
  depends on the table is taken as a parameter:
  \<^item> \<open>encode_strict s\<close> is \<^verbatim>\<open>s.encode('shift_jis')\<close> (\<open>None\<close> when it raises
    UnicodeEncodeError);
  \<^item> \<open>decode_step bs\<close> is one step of the decoder at the start of the bytes that are left:
    \<open>Decoded c k\<close> when the first k bytes form the character c, \<open>Invalid k\<close> when the
    first k bytes are a sequence that forms no character (a byte that begins none, or a
    first byte with no valid second byte after it).
\<close>

datatype step = Decoded nat nat | Invalid nat

record text_codec =
  encode_strict :: "ustr \<Rightarrow> byte list option"
  decode_step :: "byte list \<Rightarrow> step"

text \<open>
  \<^verbatim>\<open>bs.decode('shift_jis', errors=...)\<close>: the decoder goes through the bytes from left to
  right, one step after the other. At a sequence that forms no character,
  \<^verbatim>\<open>errors='strict'\<close> raises UnicodeDecodeError, and \<^verbatim>\<open>errors='ignore'\<close> leaves the
  sequence out and goes on after it. Every step covers at least one byte.
\<close>

datatype errors = Strict | Ignore

function decode :: "text_codec \<Rightarrow> errors \<Rightarrow> byte list \<Rightarrow> error + ustr" where
  "decode cdc errs [] = Inr []"
| "decode cdc errs (b # bs) =
     (case decode_step cdc (b # bs) of
        Decoded c k \<Rightarrow>
          (case decode cdc errs (drop (max 1 k) (b # bs)) of
             Inl e \<Rightarrow> Inl e
           | Inr s \<Rightarrow> Inr (c # s))
      | Invalid k \<Rightarrow>
          (case errs of
             Strict \<Rightarrow> Inl UnicodeDecodeError
           | Ignore \<Rightarrow> decode cdc errs (drop (max 1 k) (b # bs))))"
  by pat_completeness auto
termination
  by (relation "measure (\<lambda>(cdc, errs, bs). length bs)") auto

subsection \<open>Constants\<close>

definition RECORD_TYPE_HEADER :: int where "RECORD_TYPE_HEADER = 1"
definition RECORD_TYPE_DATA :: int where "RECORD_TYPE_DATA = 2"
definition RECORD_TYPE_TRAILER :: int where "RECORD_TYPE_TRAILER = 8"

definition RECORD_SIZE :: nat where "RECORD_SIZE = 120"

subsection \<open>Byte-string helpers of Python\<close>

text \<open>\<^verbatim>\<open>bs.ljust(n, fill)\<close>: pads on the right up to length n, and returns bs when it is longer.\<close>

definition ljust :: "byte list \<Rightarrow> nat \<Rightarrow> byte \<Rightarrow> byte list" where
  "ljust bs n fill = bs @ replicate (n - length bs) fill"

text \<open>\<^verbatim>\<open>bs.rstrip(b)\<close> for a single byte b: removes every trailing occurrence of b.\<close>

definition rstrip :: "byte list \<Rightarrow> byte \<Rightarrow> byte list" where
  "rstrip bs b = rev (dropWhile (\<lambda>x. x = b) (rev bs))"

text \<open>\<^verbatim>\<open>struct.pack\<close> and \<^verbatim>\<open>struct.unpack\<close> for the little-endian unsigned formats.\<close>

fun le_bytes :: "nat \<Rightarrow> int \<Rightarrow> byte list" where
  "le_bytes 0 v = []"
| "le_bytes (Suc n) v = word_of_int (v mod 256) # le_bytes n (v div 256)"

fun le_int :: "byte list \<Rightarrow> int" where
  "le_int [] = 0"
| "le_int (b # bs) = uint b + 256 * le_int bs"

text \<open>The \<^verbatim>\<open>ascii\<close> codec, strict in both directions.\<close>

definition ascii_encode :: "ustr \<Rightarrow> byte list option" where
  "ascii_encode s = (if list_all (\<lambda>c. c < 128) s then Some (map of_nat s) else None)"

definition ascii_decode :: "byte list \<Rightarrow> ustr option" where
  "ascii_decode bs = (if list_all (\<lambda>b. b < 128) bs then Some (map unat bs) else None)"

text \<open>A string literal as a Python string and as bytes.\<close>

definition ascii :: "string \<Rightarrow> ustr" where
  "ascii s = map of_char s"

definition ascii_bytes :: "string \<Rightarrow> byte list" where
  "ascii_bytes s = map of_char s"

subsection \<open>The building blocks of construct used by the source\<close>

text \<open>
  \<open>FormatField w\<close> is an unsigned little-endian integer of w bytes: \<^verbatim>\<open>Int8ul\<close>, \<^verbatim>\<open>Int32ul\<close>
  and \<^verbatim>\<open>Int64ul\<close> are the widths 1, 4 and 8. \<open>PaddedString n\<close> is
  \<^verbatim>\<open>PaddedString(n, "ascii")\<close>, the only encoding the source passes.
\<close>

datatype subcon =
    Const int subcon
  | FormatField nat
  | ShiftJISString nat
  | PaddedString nat
  | Padding nat

definition Int8ul :: subcon where "Int8ul = FormatField 1"
definition Int32ul :: subcon where "Int32ul = FormatField 4"
definition Int64ul :: subcon where "Int64ul = FormatField 8"

type_synonym struct = "(string \<times> subcon) list"
type_synonym container = "(string \<times> val) list"

fun sizeof :: "subcon \<Rightarrow> nat" where
  "sizeof (Const c sc) = sizeof sc"
| "sizeof (FormatField w) = w"
| "sizeof (ShiftJISString n) = n"
| "sizeof (PaddedString n) = n"
| "sizeof (Padding n) = n"

text \<open>
  A field with \<^verbatim>\<open>flagbuildnone\<close> is built from \<^verbatim>\<open>obj.get(name, None)\<close>; any other field
  from \<^verbatim>\<open>obj[name]\<close>, which raises KeyError when the key is missing.
\<close>

fun flagbuildnone :: "subcon \<Rightarrow> bool" where
  "flagbuildnone (Const c sc) = True"
| "flagbuildnone (Padding n) = True"
| "flagbuildnone sc = False"

text \<open>
  \<^verbatim>\<open>ShiftJISString._encode\<close> and \<^verbatim>\<open>ShiftJISString._decode\<close> of the source. A value that is
  not a string has no \<^verbatim>\<open>encode\<close> method.
\<close>

definition ShiftJISString_encode :: "text_codec \<Rightarrow> nat \<Rightarrow> val \<Rightarrow> error + byte list" where
  "ShiftJISString_encode cdc n obj =
     (case obj of
        StrV s \<Rightarrow>
          (case encode_strict cdc s of
             None \<Rightarrow> Inl UnicodeEncodeError
           | Some encoded \<Rightarrow>
               if length encoded > n then Inl (ValueError_too_long (length encoded) n)
               else Inr (ljust encoded n 0))
      | _ \<Rightarrow> Inl AttributeError)"

definition ShiftJISString_decode :: "text_codec \<Rightarrow> byte list \<Rightarrow> error + ustr" where
  "ShiftJISString_decode cdc obj = decode cdc Ignore (rstrip obj 0)"

text \<open>\<^verbatim>\<open>Bytes(n)\<close>, the subcon of the adapter: building checks the length.\<close>

definition Bytes_build :: "nat \<Rightarrow> byte list \<Rightarrow> error + byte list" where
  "Bytes_build n bs = (if length bs \<noteq> n then Inl StreamError else Inr bs)"

text \<open>Reading n bytes from the stream: StreamError when fewer are left.\<close>

definition stream_read :: "nat \<Rightarrow> byte list \<Rightarrow> error + (byte list \<times> byte list)" where
  "stream_read n s = (if length s < n then Inl StreamError else Inr (take n s, drop n s))"

text \<open>
  Building one field from the value found in the dictionary.
  \<^item> Const: the value must be None or the constant; the constant is built.
  \<^item> FormatField: \<^verbatim>\<open>struct.pack\<close> fails on a non-integer and outside the unsigned range.
  \<^item> ShiftJISString: the adapter encodes, then \<^verbatim>\<open>Bytes(n)\<close> builds.
  \<^item> PaddedString: the string is encoded (the empty string to no bytes), a result longer
    than n raises PaddingError, a shorter one is filled with zero bytes. A value that is
    not a string, or not ASCII, raises StringError (releases of the library before 2.10.69
    let the codec's UnicodeEncodeError through instead; no property below depends on
    which).
  \<^item> Padding: n zero bytes, whatever the value.
\<close>

fun sc_build :: "text_codec \<Rightarrow> subcon \<Rightarrow> val \<Rightarrow> error + byte list" where
  "sc_build cdc (Const c sc) obj =
     (if obj \<noteq> NoneV \<and> obj \<noteq> IntV c then Inl ConstError else sc_build cdc sc (IntV c))"
| "sc_build cdc (FormatField w) obj =
     (case obj of
        IntV v \<Rightarrow> if 0 \<le> v \<and> v < 2 ^ (8 * w) then Inr (le_bytes w v) else Inl FormatFieldError
      | _ \<Rightarrow> Inl FormatFieldError)"
| "sc_build cdc (ShiftJISString n) obj =
     (case ShiftJISString_encode cdc n obj of
        Inl e \<Rightarrow> Inl e
      | Inr obj2 \<Rightarrow> Bytes_build n obj2)"
| "sc_build cdc (PaddedString n) obj =
     (case obj of
        StrV s \<Rightarrow>
          (case (if s = [] then Some [] else ascii_encode s) of
             None \<Rightarrow> Inl StringError
           | Some bs \<Rightarrow> if n < length bs then Inl PaddingError else Inr (bs @ replicate (n - length bs) 0))
      | _ \<Rightarrow> Inl StringError)"
| "sc_build cdc (Padding n) obj = Inr (replicate n 0)"

text \<open>Parsing one field from the stream: the value and the rest of the stream.\<close>

fun sc_parse :: "text_codec \<Rightarrow> subcon \<Rightarrow> byte list \<Rightarrow> error + (val \<times> byte list)" where
  "sc_parse cdc (Const c sc) s =
     (case sc_parse cdc sc s of
        Inl e \<Rightarrow> Inl e
      | Inr (obj, rest) \<Rightarrow> if obj \<noteq> IntV c then Inl ConstError else Inr (obj, rest))"
| "sc_parse cdc (FormatField w) s =
     (case stream_read w s of
        Inl e \<Rightarrow> Inl e
      | Inr (bs, rest) \<Rightarrow> Inr (IntV (le_int bs), rest))"
| "sc_parse cdc (ShiftJISString n) s =
     (case stream_read n s of
        Inl e \<Rightarrow> Inl e
      | Inr (bs, rest) \<Rightarrow>
          (case ShiftJISString_decode cdc bs of
             Inl e \<Rightarrow> Inl e
           | Inr str \<Rightarrow> Inr (StrV str, rest)))"
| "sc_parse cdc (PaddedString n) s =
     (case stream_read n s of
        Inl e \<Rightarrow> Inl e
      | Inr (bs, rest) \<Rightarrow>
          (case ascii_decode (rstrip bs 0) of
             None \<Rightarrow> Inl StringError
           | Some str \<Rightarrow> Inr (StrV str, rest)))"
| "sc_parse cdc (Padding n) s =
     (case stream_read n s of
        Inl e \<Rightarrow> Inl e
      | Inr (bs, rest) \<Rightarrow> Inr (NoneV, rest))"

text \<open>
  \<^verbatim>\<open>Struct.build\<close>: the fields in order, the first error ends the build, and the output
  is the concatenation of the fields' bytes. The dictionary is a map from keys to values.
\<close>

definition dict_get :: "(string \<rightharpoonup> val) \<Rightarrow> string \<Rightarrow> val" where
  "dict_get obj name = (case obj name of None \<Rightarrow> NoneV | Some v \<Rightarrow> v)"

definition subobj :: "(string \<rightharpoonup> val) \<Rightarrow> string \<Rightarrow> subcon \<Rightarrow> error + val" where
  "subobj obj name sc =
     (if flagbuildnone sc then Inr (dict_get obj name)
      else (case obj name of None \<Rightarrow> Inl (KeyError name) | Some v \<Rightarrow> Inr v))"

fun Struct_build :: "text_codec \<Rightarrow> struct \<Rightarrow> (string \<rightharpoonup> val) \<Rightarrow> error + byte list" where
  "Struct_build cdc [] obj = Inr []"
| "Struct_build cdc ((name, sc) # subcons) obj =
     (case subobj obj name sc of
        Inl e \<Rightarrow> Inl e
      | Inr v \<Rightarrow>
          (case sc_build cdc sc v of
             Inl e \<Rightarrow> Inl e
           | Inr bs \<Rightarrow>
               (case Struct_build cdc subcons obj of
                  Inl e \<Rightarrow> Inl e
                | Inr rest \<Rightarrow> Inr (bs @ rest))))"

text \<open>
  \<^verbatim>\<open>Struct.parse\<close>: the fields in order from the start of the data; the result holds
  every named field, the constant and the (None) padding included (the private entry
  \<^verbatim>\<open>_io\<close> of the library's container is left out). Bytes left after the last field
  are not looked at.
\<close>

fun Struct_parse_stream :: "text_codec \<Rightarrow> struct \<Rightarrow> byte list \<Rightarrow> error + (container \<times> byte list)" where
  "Struct_parse_stream cdc [] s = Inr ([], s)"
| "Struct_parse_stream cdc ((name, sc) # subcons) s =
     (case sc_parse cdc sc s of
        Inl e \<Rightarrow> Inl e
      | Inr (v, rest) \<Rightarrow>
          (case Struct_parse_stream cdc subcons rest of
             Inl e \<Rightarrow> Inl e
           | Inr (c, rest') \<Rightarrow> Inr ((name, v) # c, rest')))"

definition Struct_parse :: "text_codec \<Rightarrow> struct \<Rightarrow> byte list \<Rightarrow> error + container" where
  "Struct_parse cdc subcons bs =
     (case Struct_parse_stream cdc subcons bs of Inl e \<Rightarrow> Inl e | Inr (c, rest) \<Rightarrow> Inr c)"

subsection \<open>The three record structures\<close>

definition HeaderRecord :: struct where
  "HeaderRecord =
     [(''record_type'', Const RECORD_TYPE_HEADER Int8ul),
      (''file_name'', ShiftJISString 30),
      (''creation_date'', PaddedString 8),
      (''creation_time'', PaddedString 6),
      (''total_records'', Int32ul),
      (''version'', PaddedString 10),
      (''reserved'', Padding 61)]"

definition DataRecord :: struct where
  "DataRecord =
     [(''record_type'', Const RECORD_TYPE_DATA Int8ul),
      (''record_id'', Int32ul),
      (''name'', ShiftJISString 50),
      (''value'', Int32ul),
      (''status'', Int8ul),
      (''timestamp'', PaddedString 14),
      (''description'', ShiftJISString 40),
      (''reserved'', Padding 6)]"

definition TrailerRecord :: struct where
  "TrailerRecord =
     [(''record_type'', Const RECORD_TYPE_TRAILER Int8ul),
      (''data_record_count'', Int32ul),
      (''total_value_sum'', Int64ul),
      (''checksum'', Int32ul),
      (''reserved'', Padding 103)]"

subsection \<open>record\_parser.py: detect\_record\_type, parse\_record, parse\_stream\<close>

definition detect_record_type :: "byte list \<Rightarrow> int option" where
  "detect_record_type bs = (if length bs < 1 then None else Some (uint (bs ! 0)))"

definition parse_record :: "text_codec \<Rightarrow> byte list \<Rightarrow> error + (container \<times> string)" where
  "parse_record cdc bs =
     (if length bs \<noteq> RECORD_SIZE then Inl (ValueError_record_size (length bs))
      else
        (let record_type = detect_record_type bs in
         if record_type = Some RECORD_TYPE_HEADER then
           (case Struct_parse cdc HeaderRecord bs of
              Inl e \<Rightarrow> Inl e | Inr parsed \<Rightarrow> Inr (parsed, ''HEADER''))
         else if record_type = Some RECORD_TYPE_DATA then
           (case Struct_parse cdc DataRecord bs of
              Inl e \<Rightarrow> Inl e | Inr parsed \<Rightarrow> Inr (parsed, ''DATA''))
         else if record_type = Some RECORD_TYPE_TRAILER then
           (case Struct_parse cdc TrailerRecord bs of
              Inl e \<Rightarrow> Inl e | Inr parsed \<Rightarrow> Inr (parsed, ''TRAILER''))
         else Inl (ValueError_unknown_type record_type)))"

text \<open>
  One entry of the result list of \<^verbatim>\<open>parse_stream\<close>, and the two messages it prints on
  the error stream: the warning for a short last read (record number, bytes read) and
  the error before an exception is raised again.
\<close>

record parsed_record =
  record_number :: nat
  record_type :: string
  data :: container

datatype message = Warning_short nat nat | Error_parse nat error

text \<open>
  The loop of \<^verbatim>\<open>parse_stream\<close>. The stream is the list of the bytes still unread;
  \<^verbatim>\<open>stream.read(RECORD_SIZE)\<close> returns the next 120 bytes, or fewer at the end. The
  function returns what was printed and either the exception or the result list.
\<close>

function parse_loop ::
  "text_codec \<Rightarrow> byte list \<Rightarrow> parsed_record list \<Rightarrow> nat \<Rightarrow> message list \<times> (error + parsed_record list)"
where
  "parse_loop cdc stream results record_num =
     (if take RECORD_SIZE stream = [] then ([], Inr results)
      else if length (take RECORD_SIZE stream) \<noteq> RECORD_SIZE then
        ([Warning_short record_num (length (take RECORD_SIZE stream))], Inr results)
      else
        (case parse_record cdc (take RECORD_SIZE stream) of
           Inl e \<Rightarrow> ([Error_parse record_num e], Inl e)
         | Inr (parsed, rec_type) \<Rightarrow>
             parse_loop cdc (drop RECORD_SIZE stream)
               (results @ [\<lparr>record_number = record_num, record_type = rec_type, data = parsed\<rparr>])
               (record_num + 1)))"
  by pat_completeness auto
termination
  by (relation "measure (\<lambda>(cdc, stream, results, record_num). length stream)")
     (auto simp: RECORD_SIZE_def)

declare parse_loop.simps [simp del]

definition parse_stream :: "text_codec \<Rightarrow> byte list \<Rightarrow> message list \<times> (error + parsed_record list)" where
  "parse_stream cdc stream = parse_loop cdc stream [] 1"

subsection \<open>generate\_records.py: the three record builders and generate\_sample\_data\<close>










subsection \<open>The entry points and their exit codes\<close>





section \<open>Notions used to state the properties\<close>

text \<open>
  Encoding followed by decoding, for one structure: the error of the build, or the
  result of parsing the bytes that were built.
\<close>

definition decode_encode :: "text_codec \<Rightarrow> struct \<Rightarrow> (string \<rightharpoonup> val) \<Rightarrow> error + container" where
  "decode_encode cdc subcons obj =
     (case Struct_build cdc subcons obj of
        Inl e \<Rightarrow> Inl e
      | Inr bs \<Rightarrow> Struct_parse cdc subcons bs)"

text \<open>The names of the fields that carry a value of the record (not the constant, not the padding).\<close>

definition field_names :: "struct \<Rightarrow> string list" where
  "field_names subcons = map fst (filter (\<lambda>(name, sc). \<not> flagbuildnone sc) subcons)"

text \<open>
  When a field's value survives the round trip. A legacy text field: the codec decodes
  the encoded bytes back to the string, and these bytes do not end in a zero byte. An
  ASCII field: the string does not end in U+0000. The constant is an integer field.
\<close>

fun roundtrips :: "text_codec \<Rightarrow> subcon \<Rightarrow> val \<Rightarrow> bool" where
  "roundtrips cdc (ShiftJISString n) (StrV s) =
     (case encode_strict cdc s of
        None \<Rightarrow> False
      | Some e \<Rightarrow> (e = [] \<or> last e \<noteq> 0) \<and> decode cdc Ignore e = Inr s)"
| "roundtrips cdc (PaddedString n) (StrV s) = (s = [] \<or> last s \<noteq> 0)"
| "roundtrips cdc (Const c sc) v = (case sc of FormatField w \<Rightarrow> True | _ \<Rightarrow> False)"
| "roundtrips cdc sc v = True"

definition struct_roundtrips :: "text_codec \<Rightarrow> struct \<Rightarrow> (string \<rightharpoonup> val) \<Rightarrow> bool" where
  "struct_roundtrips cdc subcons obj =
     list_all (\<lambda>(name, sc). roundtrips cdc sc (dict_get obj name)) subcons"

text \<open>
  The sequences the decoder goes through on some bytes: every step, with the bytes it
  covers; the characters of those sequences that form one; and whether all of them do.
\<close>

fun step_size :: "step \<Rightarrow> nat" where
  "step_size (Decoded c k) = k"
| "step_size (Invalid k) = k"

function segments :: "text_codec \<Rightarrow> byte list \<Rightarrow> (step \<times> byte list) list" where
  "segments cdc [] = []"
| "segments cdc (b # bs) =
     (decode_step cdc (b # bs), take (max 1 (step_size (decode_step cdc (b # bs)))) (b # bs)) #
     segments cdc (drop (max 1 (step_size (decode_step cdc (b # bs)))) (b # bs))"
  by pat_completeness auto
termination
  by (relation "measure (\<lambda>(cdc, bs). length bs)") auto

fun valid_chars :: "(step \<times> byte list) list \<Rightarrow> ustr" where
  "valid_chars [] = []"
| "valid_chars ((Decoded c k, bs) # xs) = c # valid_chars xs"
| "valid_chars ((Invalid k, bs) # xs) = valid_chars xs"

fun all_valid :: "(step \<times> byte list) list \<Rightarrow> bool" where
  "all_valid [] = True"
| "all_valid ((Decoded c k, bs) # xs) = all_valid xs"
| "all_valid ((Invalid k, bs) # xs) = False"

text \<open>What parsing returns for a field that was built from the value v.\<close>

fun parsed_val :: "subcon \<Rightarrow> val \<Rightarrow> val" where
  "parsed_val (Const c sc) v = IntV c"
| "parsed_val (Padding n) v = NoneV"
| "parsed_val sc v = v"

definition parsed_container :: "struct \<Rightarrow> (string \<rightharpoonup> val) \<Rightarrow> container" where
  "parsed_container subcons obj =
     map (\<lambda>(name, sc). (name, parsed_val sc (dict_get obj name))) subcons"

text \<open>
  The entries \<^verbatim>\<open>parse_stream\<close> appends for a list of frames, numbered from k: one entry
  for each frame, as long as \<^verbatim>\<open>parse_record\<close> returns.
\<close>

fun entries :: "text_codec \<Rightarrow> nat \<Rightarrow> byte list list \<Rightarrow> parsed_record list" where
  "entries cdc k [] = []"
| "entries cdc k (f # fs) =
     (case parse_record cdc f of
        Inl e \<Rightarrow> []
      | Inr (parsed, rec_type) \<Rightarrow>
          \<lparr>record_number = k, record_type = rec_type, data = parsed\<rparr> # entries cdc (Suc k) fs)"

subsection \<open>A codec instance and sample values\<close>

text \<open>
  A fragment of shift\_jis: the ASCII range, one byte each, and the double-byte
  characters of the sample names and the sample descriptions of
  \<^verbatim>\<open>generate_sample_data\<close>, with their shift\_jis byte pairs. The encoder raises on
  any other character; for the decoder a byte that begins none of these characters is
  an invalid sequence of one byte.
\<close>

definition sample_table :: "(nat \<times> byte list) list" where
  "sample_table =
     [(0x7530, [0x93, 0x63]), (0x4E2D, [0x92, 0x86]), (0x592A, [0x91, 0xBE]), (0x90CE, [0x98, 0x59]),
      (0x4F50, [0x8D, 0xB2]), (0x85E4, [0x93, 0xA1]), (0x82B1, [0x89, 0xD4]), (0x5B50, [0x8E, 0x71]),
      (0x9234, [0x97, 0xE9]), (0x6728, [0x96, 0xD8]), (0x4E00, [0x88, 0xEA]), (0x9AD8, [0x8D, 0x82]),
      (0x6A4B, [0x8B, 0xB4]), (0x6B21, [0x8E, 0x9F]), (0x4F0A, [0x88, 0xC9]), (0x7F8E, [0x94, 0xFC]),
      (0x54B2, [0x8D, 0xE7]), (0x6E21, [0x93, 0x6E]), (0x8FBA, [0x95, 0xD3]), (0x5065, [0x8C, 0x92]),
      (0x5C71, [0x8E, 0x52]), (0x672C, [0x96, 0x7B]), (0x7531, [0x97, 0x52]), (0x6751, [0x91, 0xBA]),
      (0x967D, [0x97, 0x7A]), (0x5C0F, [0x8F, 0xAC]), (0x6797, [0x97, 0xD1]), (0x5927, [0x91, 0xE5]),
      (0x8F14, [0x95, 0xE3]), (0x52A0, [0x89, 0xC1]), (0x611B, [0x88, 0xA4]), (0x5409, [0x8B, 0x67]),
      (0x667A, [0x92, 0x71]), (0x5B5D, [0x8D, 0x46]), (0x4E4B, [0x94, 0x56]), (0x3005, [0x81, 0x58]),
      (0x771F, [0x90, 0x5E]), (0x677E, [0x8F, 0xBC]), (0x512A, [0x97, 0x44]), (0x4E95, [0x88, 0xE4]),
      (0x4E0A, [0x8F, 0xE3]), (0x8AA0, [0x90, 0xBD]), (0x901A, [0x92, 0xCA]), (0x5E38, [0x8F, 0xED]),
      (0x51E6, [0x8F, 0x88]), (0x7406, [0x97, 0x9D]), (0x7279, [0x93, 0xC1]), (0x5225, [0x95, 0xCA]),
      (0x5148, [0x90, 0xE6]), (0x5B9A, [0x92, 0xE8]), (0x671F, [0x8A, 0xFA]), (0x7DCA, [0x8B, 0xD9]),
      (0x6025, [0x8B, 0x7D])]"

definition sample_encode_char :: "nat \<Rightarrow> byte list option" where
  "sample_encode_char c = (if c < 128 then Some [of_nat c] else map_of sample_table c)"

fun sample_encode :: "ustr \<Rightarrow> byte list option" where
  "sample_encode [] = Some []"
| "sample_encode (c # cs) =
     (case sample_encode_char c of
        None \<Rightarrow> None
      | Some b \<Rightarrow> (case sample_encode cs of None \<Rightarrow> None | Some bs \<Rightarrow> Some (b @ bs)))"

fun sample_decode_step :: "byte list \<Rightarrow> step" where
  "sample_decode_step [] = Invalid 0"
| "sample_decode_step [b] = (if b < 128 then Decoded (unat b) 1 else Invalid 1)"
| "sample_decode_step (b # b2 # bs) =
     (if b < 128 then Decoded (unat b) 1
      else (case map_of (map (\<lambda>(c, e). (e, c)) sample_table) [b, b2] of
              Some c \<Rightarrow> Decoded c 2
            | None \<Rightarrow> Invalid 1))"

definition sample_codec :: text_codec where
  "sample_codec = \<lparr>encode_strict = sample_encode, decode_step = sample_decode_step\<rparr>"

text \<open>The name and the description of the scenario, as code points and as shift\_jis bytes.\<close>

definition tanaka_taro :: ustr where
  "tanaka_taro = [0x7530, 0x4E2D, 0x592A, 0x90CE]"

definition tanaka_taro_sjis :: "byte list" where
  "tanaka_taro_sjis = [0x93, 0x63, 0x92, 0x86, 0x91, 0xBE, 0x98, 0x59]"

definition tsujo_shori :: ustr where
  "tsujo_shori = [0x901A, 0x5E38, 0x51E6, 0x7406]"

definition tsujo_shori_sjis :: "byte list" where
  "tsujo_shori_sjis = [0x92, 0xCA, 0x8F, 0xED, 0x8F, 0x88, 0x97, 0x9D]"

text \<open>The Data record of the scenario, a Header and a Trailer, and the frames they encode to.\<close>

definition scenario_record :: "string \<rightharpoonup> val" where
  "scenario_record = map_of
     [(''record_id'', IntV 1),
      (''name'', StrV tanaka_taro),
      (''value'', IntV 1000),
      (''status'', IntV 1),
      (''timestamp'', StrV (ascii ''20240101120000'')),
      (''description'', StrV tsujo_shori)]"

definition scenario_frame :: "byte list" where
  "scenario_frame =
     [2, 1, 0, 0, 0] @ tanaka_taro_sjis @ replicate 42 0 @ [232, 3, 0, 0, 1] @
     ascii_bytes ''20240101120000'' @ tsujo_shori_sjis @ replicate 32 0 @ replicate 6 0"

definition example_header :: "string \<rightharpoonup> val" where
  "example_header = map_of
     [(''file_name'', StrV (ascii ''sample_data.bin'')),
      (''creation_date'', StrV (ascii ''20240101'')),
      (''creation_time'', StrV (ascii ''120000'')),
      (''total_records'', IntV 3),
      (''version'', StrV (ascii ''1.0''))]"

definition example_header_frame :: "byte list" where
  "example_header_frame =
     [1] @ ascii_bytes ''sample_data.bin'' @ replicate 15 0 @ ascii_bytes ''20240101'' @
     ascii_bytes ''120000'' @ [3, 0, 0, 0] @ ascii_bytes ''1.0'' @ replicate 7 0 @ replicate 61 0"

definition example_trailer :: "string \<rightharpoonup> val" where
  "example_trailer = map_of
     [(''data_record_count'', IntV 1),
      (''total_value_sum'', IntV 1000),
      (''checksum'', IntV 1)]"

definition example_trailer_frame :: "byte list" where
  "example_trailer_frame =
     [8, 1, 0, 0, 0, 232, 3, 0, 0, 0, 0, 0, 0, 1, 0, 0, 0] @ replicate 103 0"

text \<open>A Header whose version ends in U+0000.\<close>

definition nul_header :: "string \<rightharpoonup> val" where
  "nul_header = map_of
     [(''file_name'', StrV (ascii ''a'')),
      (''creation_date'', StrV (ascii ''20240101'')),
      (''creation_time'', StrV (ascii ''120000'')),
      (''total_records'', IntV 3),
      (''version'', StrV (ascii ''1.0'' @ [0]))]"

text \<open>A name of 51 characters, and a Data record with that name.\<close>

definition long_name :: ustr where
  "long_name = ascii ''aaaaaaaaaaaaaaaaaaaaaaaaaaaaaaaaaaaaaaaaaaaaaaaaaaa''"

definition long_record :: "string \<rightharpoonup> val" where
  "long_record = map_of
     [(''record_id'', IntV 1),
      (''name'', StrV long_name),
      (''value'', IntV 1000),
      (''status'', IntV 1),
      (''timestamp'', StrV (ascii ''20240101120000'')),
      (''description'', StrV tsujo_shori)]"

text \<open>A frame of 120 bytes on which \<^verbatim>\<open>parse_record\<close> returns.\<close>

definition parses :: "text_codec \<Rightarrow> byte list \<Rightarrow> bool" where
  "parses cdc f = (length f = 120 \<and> (case parse_record cdc f of Inl e \<Rightarrow> False | Inr r \<Rightarrow> True))"





section \<open>Lemmas on the helpers\<close>

lemma le_bytes_length: "length (le_bytes n v) = n"
  by (induction n arbitrary: v) auto

lemma le_int_le_bytes: "0 \<le> v \<Longrightarrow> v < 256 ^ n \<Longrightarrow> le_int (le_bytes n v) = v"
proof (induction n arbitrary: v)
  case 0
  then show ?case by simp
next
  case (Suc n)
  have "v div 256 < 256 ^ n" using Suc.prems by (simp add: div_less_iff_less_mult mult.commute)
  moreover have "0 \<le> v div 256" using Suc.prems by simp
  ultimately have "le_int (le_bytes n (v div 256)) = v div 256" by (rule Suc.IH[rotated])
  moreover have "uint (word_of_int (v mod 256) :: byte) = v mod 256"
    by (simp add: uint_word_of_int)
  ultimately show ?case by simp
qed

lemma pow_256: "(2::int) ^ (8 * w) = 256 ^ w"
  by (simp add: power_mult)

lemma le_bytes_1: "le_bytes 1 v = [word_of_int (v mod 256)]"
  by (simp add: eval_nat_numeral)

lemma le_bytes_4:
  "le_bytes 4 v =
     [word_of_int (v mod 256), word_of_int (v div 256 mod 256),
      word_of_int (v div 256 div 256 mod 256), word_of_int (v div 256 div 256 div 256 mod 256)]"
  by (simp add: eval_nat_numeral)

lemma le_bytes_8:
  "le_bytes 8 v =
     [word_of_int (v mod 256), word_of_int (v div 256 mod 256),
      word_of_int (v div 256 div 256 mod 256), word_of_int (v div 256 div 256 div 256 mod 256)] @
     le_bytes 4 (v div 256 div 256 div 256 div 256)"
  by (simp add: eval_nat_numeral)

lemma rstrip_append_zeros:
  "bs = [] \<or> last bs \<noteq> b \<Longrightarrow> rstrip (bs @ replicate k b) b = bs"
  unfolding rstrip_def
  by (cases bs rule: rev_cases) (auto simp: dropWhile_append3)

lemma rstrip_decomp: "\<exists>k. bs = rstrip bs b @ replicate k b"
proof (induction bs rule: rev_induct)
  case Nil
  then show ?case by (simp add: rstrip_def)
next
  case (snoc x xs)
  show ?case
  proof (cases "x = b")
    case True
    from snoc obtain k where k: "xs = rstrip xs b @ replicate k b" by blast
    have "rstrip (xs @ [x]) b = rstrip xs b" using True by (simp add: rstrip_def)
    moreover have "xs @ [x] = rstrip xs b @ replicate (Suc k) b"
      using k True by (metis append.assoc replicate_Suc replicate_append_same)
    ultimately show ?thesis by metis
  next
    case False
    then have "rstrip (xs @ [x]) b = xs @ [x]" by (simp add: rstrip_def)
    then show ?thesis by (metis append_Nil2 replicate_0)
  qed
qed

lemma rstrip_last: "rstrip bs b = [] \<or> last (rstrip bs b) \<noteq> b"
proof (induction bs rule: rev_induct)
  case Nil
  then show ?case by (simp add: rstrip_def)
next
  case (snoc x xs)
  then show ?case by (cases "x = b") (auto simp: rstrip_def)
qed

lemma set_rstrip: "set (rstrip bs b) \<subseteq> set bs"
  unfolding rstrip_def by (metis set_dropWhileD set_rev subsetI)

lemma stream_read_append:
  "length bs = n \<Longrightarrow> stream_read n (bs @ rest) = Inr (bs, rest)"
  by (simp add: stream_read_def)

lemma byte_of_nat_small: "c < 128 \<Longrightarrow> unat (of_nat c :: byte) = c"
  by (simp add: unat_of_nat)

lemma ascii_encode_bytes:
  assumes "ascii_encode s = Some bs"
  shows "list_all (\<lambda>b. b < 128) bs" and "map unat bs = s"
proof -
  from assms have all: "list_all (\<lambda>c. c < 128) s" and bs: "bs = map of_nat s"
    by (auto simp: ascii_encode_def split: if_splits)
  have u: "\<And>c. c \<in> set s \<Longrightarrow> unat (of_nat c :: byte) = c"
    using all by (auto simp: list_all_iff byte_of_nat_small)
  show "list_all (\<lambda>b. b < 128) bs"
    using all u unfolding bs by (auto simp: list_all_iff word_less_nat_alt)
  show "map unat bs = s"
    unfolding bs using u by (simp add: map_idI)
qed

lemma ascii_roundtrip: "ascii_encode s = Some bs \<Longrightarrow> ascii_decode bs = Some s"
  using ascii_encode_bytes[of s bs] by (simp add: ascii_decode_def)

lemma ascii_encode_last:
  assumes "ascii_encode s = Some bs" and "s = [] \<or> last s \<noteq> 0"
  shows "bs = [] \<or> last bs \<noteq> 0"
proof (cases "s = []")
  case True
  with assms(1) show ?thesis by (auto simp: ascii_encode_def split: if_splits)
next
  case False
  from assms(1) have all: "list_all (\<lambda>c. c < 128) s" and bs: "bs = map of_nat s"
    by (auto simp: ascii_encode_def split: if_splits)
  from False assms(2) have "last s \<noteq> 0" "last s \<in> set s" by auto
  then have "unat (of_nat (last s) :: byte) \<noteq> 0"
    using all by (auto simp: list_all_iff byte_of_nat_small)
  then have "(of_nat (last s) :: byte) \<noteq> 0" by auto
  then show ?thesis using False by (simp add: bs last_map)
qed

section \<open>The decoder\<close>

lemma decode_Ignore: "decode cdc Ignore bs = Inr (valid_chars (segments cdc bs))"
proof (induction cdc "Ignore" bs rule: decode.induct)
  case (1 cdc)
  then show ?case by simp
next
  case (2 cdc b bs)
  then show ?case by (cases "decode_step cdc (b # bs)") auto
qed

lemma decode_Strict:
  "decode cdc Strict bs =
     (if all_valid (segments cdc bs) then Inr (valid_chars (segments cdc bs))
      else Inl UnicodeDecodeError)"
proof (induction cdc "Strict" bs rule: decode.induct)
  case (1 cdc)
  then show ?case by simp
next
  case (2 cdc b bs)
  then show ?case by (cases "decode_step cdc (b # bs)") auto
qed

lemma concat_segments: "concat (map snd (segments cdc bs)) = bs"
proof (induction cdc bs rule: segments.induct)
  case (1 cdc)
  then show ?case by simp
next
  case (2 cdc b bs)
  then show ?case by (simp del: take_Suc_Cons drop_Suc_Cons add: drop_Cons' take_Cons')
qed

section \<open>One field\<close>

lemma sc_build_length: "sc_build cdc sc v = Inr bs \<Longrightarrow> length bs = sizeof sc"
proof (induction sc arbitrary: v)
  case (Const c sc)
  then show ?case by (auto split: if_splits)
next
  case (FormatField w)
  then show ?case by (auto simp: le_bytes_length split: val.splits if_splits)
next
  case (ShiftJISString n)
  then show ?case by (auto simp: Bytes_build_def split: sum.splits if_splits)
next
  case (PaddedString n)
  then show ?case by (auto split: val.splits option.splits if_splits)
next
  case (Padding n)
  then show ?case by auto
qed

lemma sc_roundtrip:
  assumes "sc_build cdc sc v = Inr bs" and "roundtrips cdc sc v"
  shows "sc_parse cdc sc (bs @ rest) = Inr (parsed_val sc v, rest)"
proof (cases sc)
  case (Const c sc')
  with assms(2) obtain w where sc': "sc' = FormatField w" by (cases sc') auto
  from assms(1) have b: "bs = le_bytes w c" and r: "0 \<le> c" "c < 2 ^ (8 * w)"
    unfolding Const sc' by (auto split: if_splits)
  show ?thesis unfolding Const sc' using r
    by (simp add: b stream_read_append le_bytes_length le_int_le_bytes pow_256)
next
  case (FormatField w)
  with assms(1) obtain i where "v = IntV i" "bs = le_bytes w i" "0 \<le> i" "i < 2 ^ (8 * w)"
    by (auto split: val.splits if_splits)
  then show ?thesis unfolding FormatField
    by (simp add: stream_read_append le_bytes_length le_int_le_bytes pow_256)
next
  case (ShiftJISString n)
  with assms(1) obtain s e where v: "v = StrV s" and e: "encode_strict cdc s = Some e"
    and le: "length e \<le> n" and bs: "bs = ljust e n 0"
    by (auto simp: ShiftJISString_encode_def Bytes_build_def
             split: val.splits option.splits if_splits sum.splits)
  from assms(2) have z: "e = [] \<or> last e \<noteq> 0" and d: "decode cdc Ignore e = Inr s"
    unfolding ShiftJISString v by (auto simp: e)
  have "length bs = n" using le by (simp add: bs ljust_def)
  moreover have "rstrip bs 0 = e" unfolding bs ljust_def using z by (rule rstrip_append_zeros)
  ultimately show ?thesis unfolding ShiftJISString v
    by (simp add: stream_read_append ShiftJISString_decode_def d)
next
  case (PaddedString n)
  with assms(1) obtain s e where v: "v = StrV s"
    and e: "(if s = [] then Some [] else ascii_encode s) = Some e"
    and le: "length e \<le> n" and bs: "bs = e @ replicate (n - length e) 0"
    by (auto split: val.splits option.splits if_splits)
  from assms(2) have z: "s = [] \<or> last s \<noteq> 0"
    unfolding PaddedString v by simp
  have ae: "ascii_encode s = Some e" using e by (auto simp: ascii_encode_def split: if_splits)
  have "length bs = n" using le by (simp add: bs)
  moreover have "rstrip bs 0 = e" unfolding bs
    using ascii_encode_last[OF ae z] by (rule rstrip_append_zeros)
  ultimately show ?thesis unfolding PaddedString v
    by (simp add: stream_read_append ascii_roundtrip[OF ae])
next
  case (Padding n)
  with assms(1) show ?thesis by (auto simp: stream_read_append)
qed

text \<open>Whatever was built parses: no round-trip condition is needed for that.\<close>

lemma sc_parse_built:
  assumes "sc_build cdc sc v = Inr bs" and "roundtrips cdc sc NoneV"
  shows "\<exists>v'. sc_parse cdc sc (bs @ rest) = Inr (v', rest)"
proof (cases sc)
  case (Const c sc')
  with assms(2) obtain w where sc': "sc' = FormatField w" by (cases sc') auto
  have "roundtrips cdc sc v" unfolding Const sc' by simp
  from sc_roundtrip[OF assms(1) this] show ?thesis by blast
next
  case (FormatField w)
  then have "roundtrips cdc sc v" by simp
  from sc_roundtrip[OF assms(1) this] show ?thesis by blast
next
  case (ShiftJISString n)
  from sc_build_length[OF assms(1)] have "length bs = n" by (simp add: ShiftJISString)
  then show ?thesis unfolding ShiftJISString
    by (simp add: stream_read_append ShiftJISString_decode_def decode_Ignore)
next
  case (PaddedString n)
  with assms(1) obtain s e where v: "v = StrV s"
    and e: "(if s = [] then Some [] else ascii_encode s) = Some e"
    and le: "length e \<le> n" and bs: "bs = e @ replicate (n - length e) 0"
    by (auto split: val.splits option.splits if_splits)
  have ae: "ascii_encode s = Some e" using e by (auto simp: ascii_encode_def split: if_splits)
  have "list_all (\<lambda>b. b < 128) bs"
    using ascii_encode_bytes(1)[OF ae] by (auto simp: bs list_all_iff)
  then have "list_all (\<lambda>b. b < 128) (rstrip bs 0)"
    using set_rstrip[of bs 0] by (auto simp: list_all_iff)
  then obtain str where "ascii_decode (rstrip bs 0) = Some str"
    by (simp add: ascii_decode_def)
  moreover have "length bs = n" using le by (simp add: bs)
  ultimately show ?thesis unfolding PaddedString by (simp add: stream_read_append)
next
  case (Padding n)
  with assms(1) show ?thesis by (auto simp: stream_read_append)
qed

section \<open>One structure\<close>

lemma subobj_Inr: "subobj obj name sc = Inr v \<Longrightarrow> v = dict_get obj name"
  by (auto simp: subobj_def dict_get_def split: if_splits option.splits)

lemma subobj_field:
  "subobj obj name sc = Inr v \<Longrightarrow> \<not> flagbuildnone sc \<Longrightarrow> obj name = Some v"
  by (auto simp: subobj_def split: if_splits option.splits)

lemma Struct_build_length:
  "Struct_build cdc subcons obj = Inr bs \<Longrightarrow> length bs = sum_list (map (sizeof \<circ> snd) subcons)"
proof (induction subcons arbitrary: bs)
  case Nil
  then show ?case by simp
next
  case (Cons f subcons)
  obtain name sc where f: "f = (name, sc)" by (cases f)
  from Cons.prems obtain v b rest where "sc_build cdc sc v = Inr b"
    "Struct_build cdc subcons obj = Inr rest" "bs = b @ rest"
    unfolding f by (auto split: sum.splits)
  then show ?case using Cons.IH[of rest] sc_build_length[of cdc sc v b] by (simp add: f)
qed

lemma Struct_build_append:
  "Struct_build cdc (xs @ ys) obj = Inr bs \<Longrightarrow>
   \<exists>b1 b2. Struct_build cdc xs obj = Inr b1 \<and> Struct_build cdc ys obj = Inr b2 \<and> bs = b1 @ b2"
proof (induction xs arbitrary: bs)
  case Nil
  then show ?case by simp
next
  case (Cons f xs)
  obtain name sc where f: "f = (name, sc)" by (cases f)
  from Cons.prems obtain v b rest where s: "subobj obj name sc = Inr v" "sc_build cdc sc v = Inr b"
    and r: "Struct_build cdc (xs @ ys) obj = Inr rest" and bs: "bs = b @ rest"
    unfolding f by (auto split: sum.splits)
  from Cons.IH[OF r] obtain b1 b2 where "Struct_build cdc xs obj = Inr b1"
    "Struct_build cdc ys obj = Inr b2" "rest = b1 @ b2" by blast
  then show ?case using s bs by (simp add: f)
qed

lemma Struct_roundtrip_stream:
  assumes "Struct_build cdc subcons obj = Inr bs" and "struct_roundtrips cdc subcons obj"
  shows "Struct_parse_stream cdc subcons (bs @ rest) = Inr (parsed_container subcons obj, rest)"
  using assms
proof (induction subcons arbitrary: bs)
  case Nil
  then show ?case by (simp add: parsed_container_def)
next
  case (Cons f subcons)
  obtain name sc where f: "f = (name, sc)" by (cases f)
  from Cons.prems(1) obtain v b bs' where s: "subobj obj name sc = Inr v"
    and b: "sc_build cdc sc v = Inr b"
    and r: "Struct_build cdc subcons obj = Inr bs'" and bs: "bs = b @ bs'"
    unfolding f by (auto split: sum.splits)
  have v: "v = dict_get obj name" using s by (rule subobj_Inr)
  from Cons.prems(2) have rt: "roundtrips cdc sc v" and rts: "struct_roundtrips cdc subcons obj"
    by (simp_all add: struct_roundtrips_def f v)
  have "sc_parse cdc sc (b @ (bs' @ rest)) = Inr (parsed_val sc v, bs' @ rest)"
    using b rt by (rule sc_roundtrip)
  moreover have "Struct_parse_stream cdc subcons (bs' @ rest) = Inr (parsed_container subcons obj, rest)"
    using r rts by (rule Cons.IH)
  ultimately show ?case by (simp add: f bs parsed_container_def v)
qed

lemma Struct_roundtrip:
  assumes "Struct_build cdc subcons obj = Inr bs" and "struct_roundtrips cdc subcons obj"
  shows "Struct_parse cdc subcons bs = Inr (parsed_container subcons obj)"
  using Struct_roundtrip_stream[OF assms, of "[]"] by (simp add: Struct_parse_def)

lemma Struct_parse_built_stream:
  assumes "Struct_build cdc subcons obj = Inr bs"
    and "list_all (\<lambda>(name, sc). roundtrips cdc sc NoneV) subcons"
  shows "\<exists>c. Struct_parse_stream cdc subcons (bs @ rest) = Inr (c, rest)"
  using assms
proof (induction subcons arbitrary: bs)
  case Nil
  then show ?case by simp
next
  case (Cons f subcons)
  obtain name sc where f: "f = (name, sc)" by (cases f)
  from Cons.prems(1) obtain v b bs' where b: "sc_build cdc sc v = Inr b"
    and r: "Struct_build cdc subcons obj = Inr bs'" and bs: "bs = b @ bs'"
    unfolding f by (auto split: sum.splits)
  from Cons.prems(2) have rt: "roundtrips cdc sc NoneV"
    and rts: "list_all (\<lambda>(name, sc). roundtrips cdc sc NoneV) subcons"
    by (simp_all add: f)
  from sc_parse_built[OF b rt] obtain v' where
    "sc_parse cdc sc (b @ (bs' @ rest)) = Inr (v', bs' @ rest)" by blast
  moreover from Cons.IH[OF r rts] obtain c where
    "Struct_parse_stream cdc subcons (bs' @ rest) = Inr (c, rest)" by blast
  ultimately show ?case by (simp add: f bs)
qed

lemma Struct_parse_built:
  assumes "Struct_build cdc subcons obj = Inr bs"
    and "list_all (\<lambda>(name, sc). roundtrips cdc sc NoneV) subcons"
  shows "\<exists>c. Struct_parse cdc subcons bs = Inr c"
  using Struct_parse_built_stream[OF assms, of "[]"] by (auto simp: Struct_parse_def)

lemma map_of_parsed_container:
  assumes "distinct (map fst subcons)" and "(name, sc) \<in> set subcons"
  shows "map_of (parsed_container subcons obj) name = Some (parsed_val sc (dict_get obj name))"
proof -
  have "distinct (map fst (parsed_container subcons obj))"
    using assms(1) by (simp add: parsed_container_def comp_def case_prod_unfold)
  moreover have "(name, parsed_val sc (dict_get obj name)) \<in> set (parsed_container subcons obj)"
    using assms(2) by (force simp: parsed_container_def)
  ultimately show ?thesis by (rule map_of_is_SomeI)
qed

section \<open>The sample values\<close>

lemmas struct_defs = HeaderRecord_def DataRecord_def TrailerRecord_def
  Int8ul_def Int32ul_def Int64ul_def
  RECORD_TYPE_HEADER_def RECORD_TYPE_DATA_def RECORD_TYPE_TRAILER_def

lemmas build_defs = subobj_def dict_get_def ShiftJISString_encode_def Bytes_build_def ljust_def
  ascii_encode_def ascii_def ascii_bytes_def le_bytes_1 le_bytes_4 le_bytes_8

lemmas sample_defs = sample_codec_def sample_encode_char_def sample_table_def
  tanaka_taro_def tanaka_taro_sjis_def tsujo_shori_def tsujo_shori_sjis_def

lemma sample_encode_tanaka_taro: "encode_strict sample_codec tanaka_taro = Some tanaka_taro_sjis"
  by (simp add: sample_defs)

lemma sample_decode_tanaka_taro: "decode sample_codec Ignore tanaka_taro_sjis = Inr tanaka_taro"
  by (simp add: sample_defs)

lemma sample_encode_tsujo_shori: "encode_strict sample_codec tsujo_shori = Some tsujo_shori_sjis"
  by (simp add: sample_defs)

lemma sample_decode_tsujo_shori: "decode sample_codec Ignore tsujo_shori_sjis = Inr tsujo_shori"
  by (simp add: sample_defs)

lemma scenario_builds:
  "Struct_build sample_codec DataRecord scenario_record = Inr scenario_frame"
  by (simp add: struct_defs build_defs sample_defs scenario_record_def scenario_frame_def)

lemma example_header_builds:
  "Struct_build sample_codec HeaderRecord example_header = Inr example_header_frame"
  by (simp add: struct_defs build_defs sample_defs example_header_def example_header_frame_def)

lemma example_trailer_builds:
  "Struct_build sample_codec TrailerRecord example_trailer = Inr example_trailer_frame"
  by (simp add: struct_defs build_defs sample_defs example_trailer_def example_trailer_frame_def)

section \<open>Fixed length\<close>

lemma reserved_tail:
  assumes "Struct_build cdc (subcons @ [(name, Padding k)]) obj = Inr bs"
  shows "drop (sum_list (map (sizeof \<circ> snd) subcons)) bs = replicate k 0"
proof -
  from Struct_build_append[OF assms] obtain b1 b2 where b1: "Struct_build cdc subcons obj = Inr b1"
    and b2: "Struct_build cdc [(name, Padding k)] obj = Inr b2" and bs: "bs = b1 @ b2" by blast
  have "length b1 = sum_list (map (sizeof \<circ> snd) subcons)" using b1 by (rule Struct_build_length)
  moreover have "b2 = replicate k 0" using b2 by (auto simp: subobj_def split: sum.splits)
  ultimately show ?thesis by (simp add: bs)
qed

text \<open>
  C2: for each of the three structures, whenever the build of a value returns bytes,
  it returns exactly 120 of them, and the tail of the frame (the reserved region: 61
  bytes of a Header, 6 of a Data record, 103 of a Trailer) holds only zero bytes.
\<close>

theorem encoded_length_120:
  "(Struct_build cdc HeaderRecord obj = Inr bs \<longrightarrow> length bs = 120 \<and> drop 59 bs = replicate 61 0) \<and>
   (Struct_build cdc DataRecord obj = Inr bs \<longrightarrow> length bs = 120 \<and> drop 114 bs = replicate 6 0) \<and>
   (Struct_build cdc TrailerRecord obj = Inr bs \<longrightarrow> length bs = 120 \<and> drop 17 bs = replicate 103 0)"
proof (intro conjI impI)
  assume b: "Struct_build cdc HeaderRecord obj = Inr bs"
  from Struct_build_length[OF b] show "length bs = 120" by (simp add: struct_defs)
  from b have "Struct_build cdc (butlast HeaderRecord @ [(''reserved'', Padding 61)]) obj = Inr bs"
    by (simp add: HeaderRecord_def)
  from reserved_tail[OF this] show "drop 59 bs = replicate 61 0" by (simp add: struct_defs)
next
  assume b: "Struct_build cdc DataRecord obj = Inr bs"
  from Struct_build_length[OF b] show "length bs = 120" by (simp add: struct_defs)
  from b have "Struct_build cdc (butlast DataRecord @ [(''reserved'', Padding 6)]) obj = Inr bs"
    by (simp add: DataRecord_def)
  from reserved_tail[OF this] show "drop 114 bs = replicate 6 0" by (simp add: struct_defs)
next
  assume b: "Struct_build cdc TrailerRecord obj = Inr bs"
  from Struct_build_length[OF b] show "length bs = 120" by (simp add: struct_defs)
  from b have "Struct_build cdc (butlast TrailerRecord @ [(''reserved'', Padding 103)]) obj = Inr bs"
    by (simp add: TrailerRecord_def)
  from reserved_tail[OF this] show "drop 17 bs = replicate 103 0" by (simp add: struct_defs)
qed

theorem encoded_length_120_witness:
  "Struct_build sample_codec HeaderRecord example_header = Inr example_header_frame \<and>
   length example_header_frame = 120 \<and> drop 59 example_header_frame = replicate 61 0 \<and>
   Struct_build sample_codec DataRecord scenario_record = Inr scenario_frame \<and>
   length scenario_frame = 120 \<and> drop 114 scenario_frame = replicate 6 0 \<and>
   Struct_build sample_codec TrailerRecord example_trailer = Inr example_trailer_frame \<and>
   length example_trailer_frame = 120 \<and> drop 17 example_trailer_frame = replicate 103 0"
  using encoded_length_120[of sample_codec example_header example_header_frame]
    encoded_length_120[of sample_codec scenario_record scenario_frame]
    encoded_length_120[of sample_codec example_trailer example_trailer_frame]
    example_header_builds scenario_builds example_trailer_builds
  by blast

section \<open>Discriminants\<close>

lemma take_1: "0 < length f \<Longrightarrow> take (Suc 0) f = [f ! 0]"
  by (cases f) auto

lemma parse_Const_mismatch:
  assumes "0 < length f" and "uint (f ! 0) \<noteq> c"
  shows "Struct_parse cdc ((name, Const c (FormatField (Suc 0))) # subcons) f = Inl ConstError"
  using assms by (simp add: Struct_parse_def stream_read_def take_1)

text \<open>
  C3: a frame of 120 bytes whose first byte is 2, parsed with the Header structure, fails
  with ConstError (the constant 1 of the Header does not match: the mismatched
  discriminant); a frame of 120 bytes whose first byte is 5 makes \<^verbatim>\<open>parse_record\<close> fail
  with the ValueError for an unknown record type, and \<^verbatim>\<open>parse_stream\<close> raise it again
  after printing the error for record 1.
\<close>

theorem discriminant_enforced:
  assumes "length f = 120"
  shows "(f ! 0 = 2 \<longrightarrow> Struct_parse cdc HeaderRecord f = Inl ConstError) \<and>
         (f ! 0 = 5 \<longrightarrow>
            parse_record cdc f = Inl (ValueError_unknown_type (Some 5)) \<and>
            parse_stream cdc f =
              ([Error_parse 1 (ValueError_unknown_type (Some 5))], Inl (ValueError_unknown_type (Some 5))))"
proof (intro conjI impI)
  assume "f ! 0 = 2"
  then show "Struct_parse cdc HeaderRecord f = Inl ConstError"
    using assms by (simp add: struct_defs parse_Const_mismatch)
next
  assume 5: "f ! 0 = 5"
  then show r: "parse_record cdc f = Inl (ValueError_unknown_type (Some 5))"
    using assms by (simp add: parse_record_def RECORD_SIZE_def detect_record_type_def struct_defs)
  have "take RECORD_SIZE f = f" using assms by (simp add: RECORD_SIZE_def)
  moreover have "f \<noteq> []" using assms by auto
  ultimately show "parse_stream cdc f =
      ([Error_parse 1 (ValueError_unknown_type (Some 5))], Inl (ValueError_unknown_type (Some 5)))"
    unfolding parse_stream_def using assms r
    by (subst parse_loop.simps) (simp add: RECORD_SIZE_def)
qed

theorem discriminant_enforced_witness:
  "length scenario_frame = 120 \<and> scenario_frame ! 0 = 2 \<and>
   Struct_parse sample_codec HeaderRecord scenario_frame = Inl ConstError \<and>
   length (5 # replicate 119 (0::byte)) = 120 \<and> (5 # replicate 119 (0::byte)) ! 0 = 5 \<and>
   parse_record sample_codec (5 # replicate 119 0) = Inl (ValueError_unknown_type (Some 5)) \<and>
   parse_stream sample_codec (5 # replicate 119 0) =
     ([Error_parse 1 (ValueError_unknown_type (Some 5))], Inl (ValueError_unknown_type (Some 5)))"
proof -
  have a: "length scenario_frame = 120" "scenario_frame ! 0 = 2"
    by (simp_all add: scenario_frame_def sample_defs ascii_bytes_def)
  have b: "length (5 # replicate 119 (0::byte)) = 120" "(5 # replicate 119 (0::byte)) ! 0 = 5"
    by simp_all
  show ?thesis
    using discriminant_enforced[OF a(1), of sample_codec]
      discriminant_enforced[OF b(1), of sample_codec] a b
    by blast
qed


section \<open>Legacy text fields\<close>

lemma DataRecord_name_overflow:
  assumes "obj ''record_type'' = None"
    and "obj ''record_id'' = Some (IntV i)" and "0 \<le> i" and "i < 2 ^ 32"
    and "obj ''name'' = Some (StrV s)" and "encode_strict cdc s = Some e" and "50 < length e"
  shows "Struct_build cdc DataRecord obj = Inl (ValueError_too_long (length e) 50)"
  using assms by (simp add: struct_defs subobj_def dict_get_def ShiftJISString_encode_def le_bytes_1)

text \<open>
  C6: for a string whose shift\_jis encoding e is longer than the capacity n of the field,
  \<^verbatim>\<open>ShiftJISString._encode\<close> raises the ValueError for a too long string, and the build of
  the field returns that error and no bytes; otherwise the field is e followed by zero
  bytes up to exactly n bytes. A Data record (built from a dictionary without the key
  record\_type, with a valid record\_id) whose name encodes to more than 50 bytes fails
  with that error as a whole: no bytes of the record are produced.
\<close>

theorem text_overflow_rejected:
  assumes "encode_strict cdc s = Some e"
  shows "(n < length e \<longrightarrow>
            ShiftJISString_encode cdc n (StrV s) = Inl (ValueError_too_long (length e) n) \<and>
            sc_build cdc (ShiftJISString n) (StrV s) = Inl (ValueError_too_long (length e) n)) \<and>
         (length e \<le> n \<longrightarrow>
            sc_build cdc (ShiftJISString n) (StrV s) = Inr (e @ replicate (n - length e) 0) \<and>
            length (e @ replicate (n - length e) 0) = n) \<and>
         (50 < length e \<and> obj ''name'' = Some (StrV s) \<and> obj ''record_type'' = None \<and>
          obj ''record_id'' = Some (IntV i) \<and> 0 \<le> i \<and> i < 2 ^ 32 \<longrightarrow>
            Struct_build cdc DataRecord obj = Inl (ValueError_too_long (length e) 50))"
  using assms
  by (auto simp: ShiftJISString_encode_def Bytes_build_def ljust_def DataRecord_name_overflow)

lemma sample_encode_long_name:
  "encode_strict sample_codec long_name = Some (ascii_bytes ''aaaaaaaaaaaaaaaaaaaaaaaaaaaaaaaaaaaaaaaaaaaaaaaaaaa'')"
  by (simp add: sample_codec_def sample_encode_char_def long_name_def ascii_def ascii_bytes_def)

theorem text_overflow_rejected_witness:
  "encode_strict sample_codec long_name = Some (ascii_bytes ''aaaaaaaaaaaaaaaaaaaaaaaaaaaaaaaaaaaaaaaaaaaaaaaaaaa'') \<and>
   ShiftJISString_encode sample_codec 50 (StrV long_name) = Inl (ValueError_too_long 51 50) \<and>
   sc_build sample_codec (ShiftJISString 50) (StrV long_name) = Inl (ValueError_too_long 51 50) \<and>
   Struct_build sample_codec DataRecord long_record = Inl (ValueError_too_long 51 50) \<and>
   encode_strict sample_codec tanaka_taro = Some tanaka_taro_sjis \<and>
   sc_build sample_codec (ShiftJISString 50) (StrV tanaka_taro) = Inr (tanaka_taro_sjis @ replicate 42 0) \<and>
   length (tanaka_taro_sjis @ replicate 42 0) = 50"
proof -
  have l: "length (ascii_bytes ''aaaaaaaaaaaaaaaaaaaaaaaaaaaaaaaaaaaaaaaaaaaaaaaaaaa'') = 51"
    by (simp add: ascii_bytes_def)
  have r: "long_record ''name'' = Some (StrV long_name)" "long_record ''record_id'' = Some (IntV 1)"
    "long_record ''record_type'' = None"
    by (simp_all add: long_record_def)
  have t: "length tanaka_taro_sjis = 8" by (simp add: tanaka_taro_sjis_def)
  show ?thesis
    using text_overflow_rejected[OF sample_encode_long_name, of 50 long_record 1]
      text_overflow_rejected[OF sample_encode_tanaka_taro, of 50] l r t
      sample_encode_long_name sample_encode_tanaka_taro
    by simp
qed

text \<open>
  C8: decoding a legacy text field never fails. For every byte sequence of the length of
  the field, parsing the field returns a string and no error. The trailing zero bytes
  are stripped first: what is left is the input minus a run of zero bytes at its end, and
  does not end in a zero byte. The decoder then goes through what is left as consecutive
  sequences (together they are exactly these bytes); the string that is returned holds
  the characters of the sequences that form a character, in order, and nothing for the
  sequences that form none. Strict decoding of the same bytes raises exactly when some
  sequence forms no character.
\<close>

theorem legacy_decode_total:
  assumes "length bs = n"
  shows "sc_parse cdc (ShiftJISString n) (bs @ rest) =
           Inr (StrV (valid_chars (segments cdc (rstrip bs 0))), rest) \<and>
         ShiftJISString_decode cdc bs = Inr (valid_chars (segments cdc (rstrip bs 0))) \<and>
         (\<exists>k. bs = rstrip bs 0 @ replicate k 0) \<and>
         (rstrip bs 0 = [] \<or> last (rstrip bs 0) \<noteq> 0) \<and>
         concat (map snd (segments cdc (rstrip bs 0))) = rstrip bs 0 \<and>
         decode cdc Strict (rstrip bs 0) =
           (if all_valid (segments cdc (rstrip bs 0))
            then Inr (valid_chars (segments cdc (rstrip bs 0)))
            else Inl UnicodeDecodeError)"
  using assms rstrip_decomp[of bs 0] rstrip_last[of bs 0]
  by (simp add: stream_read_append ShiftJISString_decode_def decode_Ignore decode_Strict
      concat_segments)

theorem legacy_decode_total_witness:
  "length (tanaka_taro_sjis @ [0x80, 0x41] @ replicate 40 0) = 50 \<and>
   sc_parse sample_codec (ShiftJISString 50) ((tanaka_taro_sjis @ [0x80, 0x41] @ replicate 40 0) @ []) =
     Inr (StrV (tanaka_taro @ [0x41]), []) \<and>
   rstrip (tanaka_taro_sjis @ [0x80, 0x41] @ replicate 40 0) 0 = tanaka_taro_sjis @ [0x80, 0x41] \<and>
   map snd (segments sample_codec (tanaka_taro_sjis @ [0x80, 0x41])) =
     [[0x93, 0x63], [0x92, 0x86], [0x91, 0xBE], [0x98, 0x59], [0x80], [0x41]] \<and>
   decode sample_codec Strict (tanaka_taro_sjis @ [0x80, 0x41]) = Inl UnicodeDecodeError"
proof -
  have l: "length (tanaka_taro_sjis @ [0x80, 0x41] @ replicate 40 0) = 50"
    by (simp add: tanaka_taro_sjis_def)
  have "tanaka_taro_sjis @ [0x80, 0x41] = [] \<or> last (tanaka_taro_sjis @ [0x80, 0x41]) \<noteq> 0"
    by simp
  then have "rstrip ((tanaka_taro_sjis @ [0x80, 0x41]) @ replicate 40 0) 0 =
      tanaka_taro_sjis @ [0x80, 0x41]"
    by (rule rstrip_append_zeros)
  then have r: "rstrip (tanaka_taro_sjis @ [0x80, 0x41] @ replicate 40 0) 0 =
      tanaka_taro_sjis @ [0x80, 0x41]"
    by simp
  have s: "segments sample_codec (tanaka_taro_sjis @ [0x80, 0x41]) =
      [(Decoded 0x7530 2, [0x93, 0x63]), (Decoded 0x4E2D 2, [0x92, 0x86]),
       (Decoded 0x592A 2, [0x91, 0xBE]), (Decoded 0x90CE 2, [0x98, 0x59]),
       (Invalid 1, [0x80]), (Decoded 0x41 1, [0x41])]"
    by (simp add: sample_defs)
  show ?thesis
    using legacy_decode_total[OF l, of sample_codec "[]"] l
    unfolding r s by (simp add: tanaka_taro_def)
qed

section \<open>Round trip\<close>

lemma Struct_build_field_present:
  assumes "Struct_build cdc subcons obj = Inr bs" and "(name, sc) \<in> set subcons"
    and "\<not> flagbuildnone sc"
  shows "\<exists>v. obj name = Some v"
  using assms
proof (induction subcons arbitrary: bs)
  case Nil
  then show ?case by simp
next
  case (Cons f subcons)
  obtain name' sc' where f: "f = (name', sc')" by (cases f)
  from Cons.prems(1) obtain v bs' where s: "subobj obj name' sc' = Inr v"
    and r: "Struct_build cdc subcons obj = Inr bs'"
    unfolding f by (auto split: sum.splits)
  show ?case
  proof (cases "(name, sc) = (name', sc')")
    case True
    then show ?thesis using s Cons.prems(3) subobj_field by blast
  next
    case False
    then have "(name, sc) \<in> set subcons" using Cons.prems(2) by (auto simp: f)
    then show ?thesis using Cons.IH[OF r _ Cons.prems(3)] by blast
  qed
qed

lemma parsed_val_field: "\<not> flagbuildnone sc \<Longrightarrow> parsed_val sc v = v"
  by (cases sc) auto

lemma roundtrip_field:
  assumes "distinct (map fst subcons)" and "Struct_build cdc subcons obj = Inr bs"
    and "name \<in> set (field_names subcons)"
  shows "map_of (parsed_container subcons obj) name = obj name"
proof -
  from assms(3) obtain sc where m: "(name, sc) \<in> set subcons" and f: "\<not> flagbuildnone sc"
    by (auto simp: field_names_def)
  from Struct_build_field_present[OF assms(2) m f] obtain v where v: "obj name = Some v" by blast
  have "map_of (parsed_container subcons obj) name = Some (parsed_val sc (dict_get obj name))"
    using assms(1) m by (rule map_of_parsed_container)
  then show ?thesis using f v by (simp add: parsed_val_field dict_get_def)
qed

lemma distinct_names:
  "distinct (map fst HeaderRecord)" "distinct (map fst DataRecord)" "distinct (map fst TrailerRecord)"
  by (simp_all add: struct_defs)

lemma field_names_structs:
  "field_names HeaderRecord =
     [''file_name'', ''creation_date'', ''creation_time'', ''total_records'', ''version'']"
  "field_names DataRecord =
     [''record_id'', ''name'', ''value'', ''status'', ''timestamp'', ''description'']"
  "field_names TrailerRecord = [''data_record_count'', ''total_value_sum'', ''checksum'']"
  by (simp_all add: field_names_def struct_defs)

text \<open>
  C1, as amended: for each of the three structures and every value that builds (so every
  integer is in the unsigned range of its field, every ASCII field is ASCII within its
  width and every legacy text field encodes within its capacity), if no ASCII field ends
  in U+0000 and every legacy text field encodes to bytes that do not end in a zero byte
  and that the codec decodes back to the same string, then parsing the 120 bytes that
  were built returns the fields of the value, each equal to the one that was built
  (next to the constant record\_type and the reserved field, which is None).
\<close>

theorem roundtrip_fields:
  assumes "subcons = HeaderRecord \<or> subcons = DataRecord \<or> subcons = TrailerRecord"
    and "Struct_build cdc subcons obj = Inr bs"
    and "struct_roundtrips cdc subcons obj"
  shows "Struct_parse cdc subcons bs = Inr (parsed_container subcons obj) \<and>
         decode_encode cdc subcons obj = Inr (parsed_container subcons obj) \<and>
         list_all (\<lambda>name. map_of (parsed_container subcons obj) name = obj name) (field_names subcons)"
proof -
  have p: "Struct_parse cdc subcons bs = Inr (parsed_container subcons obj)"
    using assms(2,3) by (rule Struct_roundtrip)
  have d: "distinct (map fst subcons)" using assms(1) distinct_names by auto
  have "list_all (\<lambda>name. map_of (parsed_container subcons obj) name = obj name) (field_names subcons)"
    unfolding list_all_iff using roundtrip_field[OF d assms(2)] by blast
  then show ?thesis using p assms(2) by (simp add: decode_encode_def)
qed

lemma scenario_roundtrips: "struct_roundtrips sample_codec DataRecord scenario_record"
  using sample_encode_tanaka_taro sample_decode_tanaka_taro
    sample_encode_tsujo_shori sample_decode_tsujo_shori
  by (simp add: struct_roundtrips_def struct_defs scenario_record_def dict_get_def ascii_def
      tanaka_taro_sjis_def tsujo_shori_sjis_def)

lemma scenario_container:
  "parsed_container DataRecord scenario_record =
     [(''record_type'', IntV 2), (''record_id'', IntV 1), (''name'', StrV tanaka_taro),
      (''value'', IntV 1000), (''status'', IntV 1),
      (''timestamp'', StrV (ascii ''20240101120000'')),
      (''description'', StrV tsujo_shori), (''reserved'', NoneV)]"
  by (simp add: parsed_container_def struct_defs scenario_record_def dict_get_def)

theorem roundtrip_fields_witness:
  "Struct_build sample_codec DataRecord scenario_record = Inr scenario_frame \<and>
   struct_roundtrips sample_codec DataRecord scenario_record \<and>
   Struct_parse sample_codec DataRecord scenario_frame =
     Inr [(''record_type'', IntV 2), (''record_id'', IntV 1), (''name'', StrV tanaka_taro),
          (''value'', IntV 1000), (''status'', IntV 1),
          (''timestamp'', StrV (ascii ''20240101120000'')),
          (''description'', StrV tsujo_shori), (''reserved'', NoneV)] \<and>
   map_of (parsed_container DataRecord scenario_record) ''name'' = scenario_record ''name'' \<and>
   map_of (parsed_container DataRecord scenario_record) ''description'' = scenario_record ''description''"
  using roundtrip_fields[of DataRecord sample_codec scenario_record scenario_frame]
    scenario_builds scenario_roundtrips scenario_container
  by (simp add: field_names_structs)

lemma dropWhile_replicate_append:
  "dropWhile (\<lambda>x. x = b) (replicate k b @ ys) = dropWhile (\<lambda>x. x = b) ys"
  by (induction k) auto

lemma nul_header_decode_encode:
  "decode_encode sample_codec HeaderRecord nul_header =
     Inr [(''record_type'', IntV 1), (''file_name'', StrV (ascii ''a'')),
          (''creation_date'', StrV (ascii ''20240101'')),
          (''creation_time'', StrV (ascii ''120000'')),
          (''total_records'', IntV 3),
          (''version'', StrV (ascii ''1.0'')), (''reserved'', NoneV)]"
  by (simp add: decode_encode_def Struct_parse_def struct_defs build_defs sample_defs nul_header_def
       stream_read_def ShiftJISString_decode_def rstrip_def ascii_decode_def
       dropWhile_replicate_append)

text \<open>
  The round trip as the claim states it fails on a Header whose version is the ASCII
  string 1.0 followed by U+0000: it builds, and parsing returns the version 1.0.
\<close>

theorem roundtrip_counterexample:
  "nul_header ''version'' = Some (StrV (ascii ''1.0'' @ [0])) \<and>
   decode_encode sample_codec HeaderRecord nul_header =
     Inr [(''record_type'', IntV 1), (''file_name'', StrV (ascii ''a'')),
          (''creation_date'', StrV (ascii ''20240101'')),
          (''creation_time'', StrV (ascii ''120000'')),
          (''total_records'', IntV 3),
          (''version'', StrV (ascii ''1.0'')), (''reserved'', NoneV)] \<and>
   StrV (ascii ''1.0'') \<noteq> StrV (ascii ''1.0'' @ [0])"
  using nul_header_decode_encode by (simp add: nul_header_def)


section \<open>The concrete scenario\<close>

text \<open>
  C7: the Data record of the scenario (record\_id 1, the name of four double-byte
  characters, value 1000, status 1, the timestamp 20240101120000, the description of four
  double-byte characters), for any codec that has the shift\_jis byte pairs of these eight
  characters in both directions: the build returns a frame of 120 bytes whose byte 0 is
  2 and whose bytes 1 to 4, read little-endian, are 1; parsing that frame returns every
  field with the value that was built, the two legacy texts included.
\<close>

theorem concrete_scenario:
  assumes "encode_strict cdc tanaka_taro = Some tanaka_taro_sjis"
    and "decode cdc Ignore tanaka_taro_sjis = Inr tanaka_taro"
    and "encode_strict cdc tsujo_shori = Some tsujo_shori_sjis"
    and "decode cdc Ignore tsujo_shori_sjis = Inr tsujo_shori"
  shows "Struct_build cdc DataRecord scenario_record = Inr scenario_frame \<and>
         length scenario_frame = 120 \<and>
         scenario_frame ! 0 = 2 \<and>
         le_int (take 4 (drop 1 scenario_frame)) = 1 \<and>
         Struct_parse cdc DataRecord scenario_frame =
           Inr [(''record_type'', IntV 2), (''record_id'', IntV 1), (''name'', StrV tanaka_taro),
                (''value'', IntV 1000), (''status'', IntV 1),
                (''timestamp'', StrV (ascii ''20240101120000'')),
                (''description'', StrV tsujo_shori), (''reserved'', NoneV)]"
proof -
  have l: "length tanaka_taro_sjis = 8" "length tsujo_shori_sjis = 8"
    by (simp_all add: tanaka_taro_sjis_def tsujo_shori_sjis_def)
  have b: "Struct_build cdc DataRecord scenario_record = Inr scenario_frame"
    using assms(1,3) l
    by (simp add: struct_defs build_defs scenario_record_def scenario_frame_def)
  have r: "struct_roundtrips cdc DataRecord scenario_record"
    using assms
    by (simp add: struct_roundtrips_def struct_defs scenario_record_def dict_get_def ascii_def
        tanaka_taro_sjis_def tsujo_shori_sjis_def)
  have f: "length scenario_frame = 120" "scenario_frame ! 0 = 2"
    "le_int (take 4 (drop 1 scenario_frame)) = 1"
    by (simp_all add: scenario_frame_def tanaka_taro_sjis_def tsujo_shori_sjis_def ascii_bytes_def)
  show ?thesis
    using b f Struct_roundtrip[OF b r] scenario_container by simp
qed

theorem concrete_scenario_witness:
  "encode_strict sample_codec tanaka_taro = Some tanaka_taro_sjis \<and>
   decode sample_codec Ignore tanaka_taro_sjis = Inr tanaka_taro \<and>
   encode_strict sample_codec tsujo_shori = Some tsujo_shori_sjis \<and>
   decode sample_codec Ignore tsujo_shori_sjis = Inr tsujo_shori \<and>
   Struct_build sample_codec DataRecord scenario_record = Inr scenario_frame \<and>
   Struct_parse sample_codec DataRecord scenario_frame =
     Inr [(''record_type'', IntV 2), (''record_id'', IntV 1), (''name'', StrV tanaka_taro),
          (''value'', IntV 1000), (''status'', IntV 1),
          (''timestamp'', StrV (ascii ''20240101120000'')),
          (''description'', StrV tsujo_shori), (''reserved'', NoneV)]"
  using concrete_scenario[OF sample_encode_tanaka_taro sample_decode_tanaka_taro
      sample_encode_tsujo_shori sample_decode_tsujo_shori]
    sample_encode_tanaka_taro sample_decode_tanaka_taro
    sample_encode_tsujo_shori sample_decode_tsujo_shori
  by simp

section \<open>Strings that end in U+0000\<close>

text \<open>
  C10, as amended: a string s that is t followed by k U+0000 characters (k at least 1),
  whose encoding is the encoding e of t followed by k zero bytes and fits the capacity,
  where e does not end in a zero byte and the codec decodes e back to t: the field that
  is built is e followed by zero bytes only, and parsing it returns t, which is not s.
  The round trip does not extend to such strings.
\<close>

theorem trailing_nul_lost:
  assumes "encode_strict cdc (t @ replicate k 0) = Some (e @ replicate k 0)"
    and "e = [] \<or> last e \<noteq> 0"
    and "decode cdc Ignore e = Inr t"
    and "length e + k \<le> n"
    and "0 < k"
  shows "sc_build cdc (ShiftJISString n) (StrV (t @ replicate k 0)) =
           Inr (e @ replicate (n - length e) 0) \<and>
         sc_parse cdc (ShiftJISString n) (e @ replicate (n - length e) 0) = Inr (StrV t, []) \<and>
         t \<noteq> t @ replicate k 0"
proof -
  have "replicate k (0::byte) @ replicate (n - (length e + k)) 0 = replicate (n - length e) 0"
    using assms(4) by (simp flip: replicate_add)
  then have b: "sc_build cdc (ShiftJISString n) (StrV (t @ replicate k 0)) =
      Inr (e @ replicate (n - length e) 0)"
    using assms(1,4) by (simp add: ShiftJISString_encode_def Bytes_build_def ljust_def)
  have "rstrip (e @ replicate (n - length e) 0) 0 = e"
    using assms(2) by (rule rstrip_append_zeros)
  moreover have "length (e @ replicate (n - length e) 0) = n" using assms(4) by simp
  ultimately have "sc_parse cdc (ShiftJISString n) ((e @ replicate (n - length e) 0) @ []) =
      Inr (StrV t, [])"
    using assms(3) by (simp only: sc_parse.simps stream_read_append ShiftJISString_decode_def)
      simp
  then show ?thesis using b assms(5) by simp
qed

lemma sample_encode_a_nul:
  "encode_strict sample_codec (ascii ''a'' @ replicate 1 0) = Some ([97] @ replicate 1 0)"
  by (simp add: sample_codec_def sample_encode_char_def ascii_def)

theorem trailing_nul_lost_witness:
  "encode_strict sample_codec (ascii ''a'' @ replicate 1 0) = Some ([97] @ replicate 1 0) \<and>
   decode sample_codec Ignore [97] = Inr (ascii ''a'') \<and>
   sc_build sample_codec (ShiftJISString 50) (StrV (ascii ''a'' @ replicate 1 0)) =
     Inr ([97] @ replicate 49 0) \<and>
   sc_parse sample_codec (ShiftJISString 50) ([97] @ replicate 49 0) = Inr (StrV (ascii ''a''), []) \<and>
   ascii ''a'' \<noteq> ascii ''a'' @ replicate 1 0"
proof -
  have d: "decode sample_codec Ignore [97] = Inr (ascii ''a'')"
    by (simp add: sample_codec_def ascii_def)
  have z: "[97::byte] = [] \<or> last [97::byte] \<noteq> 0" by simp
  have l: "length [97::byte] + 1 \<le> 50" by simp
  show ?thesis
    using trailing_nul_lost[OF sample_encode_a_nul z d l] sample_encode_a_nul d
    by simp
qed

text \<open>
  The decoded string can still end in U+0000: in a field that holds a zero byte, then
  the byte 0x80, then zero bytes, the trailing zero bytes are stripped, the byte 0x80
  begins no character and is ignored, and the decoded string is the single character
  U+0000.
\<close>

theorem trailing_nul_counterexample:
  "length ([0, 0x80] @ replicate 48 (0::byte)) = 50 \<and>
   sc_parse sample_codec (ShiftJISString 50) ([0, 0x80] @ replicate 48 0) = Inr (StrV [0], []) \<and>
   ShiftJISString_decode sample_codec ([0, 0x80] @ replicate 48 0) = Inr [0] \<and>
   last [0::nat] = 0"
proof -
  have l: "length ([0, 0x80] @ replicate 48 (0::byte)) = 50" by simp
  have d: "ShiftJISString_decode sample_codec ([0, 0x80] @ replicate 48 0) = Inr [0]"
    by (simp add: ShiftJISString_decode_def rstrip_def dropWhile_replicate_append sample_codec_def)
  have "sc_parse sample_codec (ShiftJISString 50) (([0, 0x80] @ replicate 48 0) @ []) =
      Inr (StrV [0], [])"
    using d by (simp only: sc_parse.simps stream_read_append[OF l]) simp
  then show ?thesis using d by simp
qed

section \<open>The frame reader\<close>

lemma parse_loop_end: "parse_loop cdc [] results k = ([], Inr results)"
  by (subst parse_loop.simps) simp

lemma parse_loop_short:
  assumes "0 < length tail" and "length tail < 120"
  shows "parse_loop cdc tail results k = ([Warning_short k (length tail)], Inr results)"
  using assms by (subst parse_loop.simps) (auto simp: RECORD_SIZE_def)

lemma parse_loop_frame:
  assumes "length f = 120" and "parse_record cdc f = Inr (parsed, rec_type)"
  shows "parse_loop cdc (f @ rest) results k =
         parse_loop cdc rest
           (results @ [\<lparr>record_number = k, record_type = rec_type, data = parsed\<rparr>]) (Suc k)"
proof -
  have "f \<noteq> []" using assms(1) by auto
  then show ?thesis
    using assms by (subst parse_loop.simps) (simp add: RECORD_SIZE_def)
qed


lemma parse_loop_frames:
  assumes "list_all (parses cdc) frames"
  shows "parse_loop cdc (concat frames @ tail) results k =
         parse_loop cdc tail (results @ entries cdc k frames) (k + length frames)"
  using assms
proof (induction frames arbitrary: results k)
  case Nil
  then show ?case by simp
next
  case (Cons f frames)
  from Cons.prems obtain parsed rec_type where l: "length f = 120"
    and p: "parse_record cdc f = Inr (parsed, rec_type)"
    by (auto simp: parses_def split: sum.splits)
  have "parse_loop cdc (f @ (concat frames @ tail)) results k =
      parse_loop cdc (concat frames @ tail)
        (results @ [\<lparr>record_number = k, record_type = rec_type, data = parsed\<rparr>]) (Suc k)"
    using l p by (rule parse_loop_frame)
  also have "\<dots> = parse_loop cdc tail
      ((results @ [\<lparr>record_number = k, record_type = rec_type, data = parsed\<rparr>]) @
        entries cdc (Suc k) frames) (Suc k + length frames)"
    using Cons.prems by (intro Cons.IH) simp
  finally show ?case by (simp add: p)
qed

lemma entries_append:
  assumes "list_all (parses cdc) xs"
  shows "entries cdc k (xs @ ys) = entries cdc k xs @ entries cdc (k + length xs) ys"
  using assms
proof (induction xs arbitrary: k)
  case Nil
  then show ?case by simp
next
  case (Cons f xs)
  then show ?case by (auto simp: parses_def split: sum.splits)
qed

lemma entries_numbers:
  assumes "list_all (parses cdc) frames"
  shows "map record_number (entries cdc k frames) = [k..<k + length frames]"
  using assms
proof (induction frames arbitrary: k)
  case Nil
  then show ?case by simp
next
  case (Cons f frames)
  from Cons.prems have pf: "parses cdc f" and rest: "list_all (parses cdc) frames"
    by simp_all
  from pf obtain parsed rec_type where p: "parse_record cdc f = Inr (parsed, rec_type)"
    by (auto simp: parses_def split: sum.splits)
  have "map record_number (entries cdc (Suc k) frames) = [Suc k..<Suc k + length frames]"
    using rest by (rule Cons.IH)
  moreover have "[k..<k + length (f # frames)] = k # [Suc k..<Suc k + length frames]"
    using upt_conv_Cons[of k "Suc (k + length frames)"] by simp
  ultimately show ?case by (simp add: p)
qed

text \<open>A frame that was built is dispatched to the structure that built it, and parses.\<close>

lemma built_first_byte:
  assumes "Struct_build cdc ((name, Const c (FormatField (Suc 0))) # subcons) obj = Inr bs"
  shows "bs \<noteq> [] \<and> uint (bs ! 0) = c"
proof -
  from assms obtain rest where c: "0 \<le> c" "c < 2 ^ 8" and bs: "bs = le_bytes (Suc 0) c @ rest"
    by (auto split: sum.splits if_splits)
  have "uint (word_of_int (c mod 256) :: byte) = c"
    using c by (simp add: uint_word_of_int)
  then show ?thesis by (simp add: bs)
qed

lemma roundtrips_None:
  "list_all (\<lambda>(name, sc). roundtrips cdc sc NoneV) HeaderRecord"
  "list_all (\<lambda>(name, sc). roundtrips cdc sc NoneV) DataRecord"
  "list_all (\<lambda>(name, sc). roundtrips cdc sc NoneV) TrailerRecord"
  by (simp_all add: struct_defs)

lemma built_header_parses:
  assumes "Struct_build cdc HeaderRecord obj = Inr bs"
  shows "\<exists>c. Struct_parse cdc HeaderRecord bs = Inr c \<and> parse_record cdc bs = Inr (c, ''HEADER'')"
    and "parses cdc bs"
proof -
  from Struct_parse_built[OF assms roundtrips_None(1)] obtain c where
    c: "Struct_parse cdc HeaderRecord bs = Inr c" by blast
  have l: "length bs = 120" using Struct_build_length[OF assms] by (simp add: struct_defs)
  have "bs \<noteq> [] \<and> uint (bs ! 0) = 1"
    using assms by (intro built_first_byte) (simp add: struct_defs)
  then have p: "parse_record cdc bs = Inr (c, ''HEADER'')"
    using l c by (simp add: parse_record_def RECORD_SIZE_def detect_record_type_def
        RECORD_TYPE_HEADER_def)
  show "\<exists>c. Struct_parse cdc HeaderRecord bs = Inr c \<and> parse_record cdc bs = Inr (c, ''HEADER'')"
    using c p by blast
  show "parses cdc bs" using l p by (simp add: parses_def)
qed

lemma built_data_parses:
  assumes "Struct_build cdc DataRecord obj = Inr bs"
  shows "\<exists>c. Struct_parse cdc DataRecord bs = Inr c \<and> parse_record cdc bs = Inr (c, ''DATA'')"
    and "parses cdc bs"
proof -
  from Struct_parse_built[OF assms roundtrips_None(2)] obtain c where
    c: "Struct_parse cdc DataRecord bs = Inr c" by blast
  have l: "length bs = 120" using Struct_build_length[OF assms] by (simp add: struct_defs)
  have "bs \<noteq> [] \<and> uint (bs ! 0) = 2"
    using assms by (intro built_first_byte) (simp add: struct_defs)
  then have p: "parse_record cdc bs = Inr (c, ''DATA'')"
    using l c by (simp add: parse_record_def RECORD_SIZE_def detect_record_type_def
        RECORD_TYPE_HEADER_def RECORD_TYPE_DATA_def)
  show "\<exists>c. Struct_parse cdc DataRecord bs = Inr c \<and> parse_record cdc bs = Inr (c, ''DATA'')"
    using c p by blast
  show "parses cdc bs" using l p by (simp add: parses_def)
qed

lemma built_trailer_parses:
  assumes "Struct_build cdc TrailerRecord obj = Inr bs"
  shows "\<exists>c. Struct_parse cdc TrailerRecord bs = Inr c \<and> parse_record cdc bs = Inr (c, ''TRAILER'')"
    and "parses cdc bs"
proof -
  from Struct_parse_built[OF assms roundtrips_None(3)] obtain c where
    c: "Struct_parse cdc TrailerRecord bs = Inr c" by blast
  have l: "length bs = 120" using Struct_build_length[OF assms] by (simp add: struct_defs)
  have "bs \<noteq> [] \<and> uint (bs ! 0) = 8"
    using assms by (intro built_first_byte) (simp add: struct_defs)
  then have p: "parse_record cdc bs = Inr (c, ''TRAILER'')"
    using l c by (simp add: parse_record_def RECORD_SIZE_def detect_record_type_def
        RECORD_TYPE_HEADER_def RECORD_TYPE_DATA_def RECORD_TYPE_TRAILER_def)
  show "\<exists>c. Struct_parse cdc TrailerRecord bs = Inr c \<and> parse_record cdc bs = Inr (c, ''TRAILER'')"
    using c p by blast
  show "parses cdc bs" using l p by (simp add: parses_def)
qed

lemma entries_header:
  assumes "Struct_build cdc HeaderRecord obj = Inr bs"
  shows "map record_type (entries cdc k [bs]) = [''HEADER'']"
    and "map (\<lambda>r. Inr (data r)) (entries cdc k [bs]) = [Struct_parse cdc HeaderRecord bs]"
  using built_header_parses(1)[OF assms] by auto

lemma entries_trailer:
  assumes "Struct_build cdc TrailerRecord obj = Inr bs"
  shows "map record_type (entries cdc k [bs]) = [''TRAILER'']"
    and "map (\<lambda>r. Inr (data r)) (entries cdc k [bs]) = [Struct_parse cdc TrailerRecord bs]"
  using built_trailer_parses(1)[OF assms] by auto

lemma built_data_all_parse:
  assumes "list_all2 (\<lambda>d b. Struct_build cdc DataRecord d = Inr b) ds dbs"
  shows "list_all (parses cdc) dbs"
  using assms by (induction rule: list_all2_induct) (auto simp: built_data_parses(2))

lemma entries_data_types:
  assumes "list_all2 (\<lambda>d b. Struct_build cdc DataRecord d = Inr b) ds dbs"
  shows "map record_type (entries cdc k dbs) = replicate (length ds) ''DATA''"
  using assms
proof (induction arbitrary: k rule: list_all2_induct)
  case Nil
  then show ?case by simp
next
  case (Cons d ds b dbs)
  then show ?case using built_data_parses(1)[OF Cons.hyps(1)] by auto
qed

lemma entries_data_values:
  assumes "list_all2 (\<lambda>d b. Struct_build cdc DataRecord d = Inr b) ds dbs"
  shows "map (\<lambda>r. Inr (data r)) (entries cdc k dbs) = map (Struct_parse cdc DataRecord) dbs"
  using assms
proof (induction arbitrary: k rule: list_all2_induct)
  case Nil
  then show ?case by simp
next
  case (Cons d ds b dbs)
  then show ?case using built_data_parses(1)[OF Cons.hyps(1)] by auto
qed

lemma parse_stream_frames:
  assumes "list_all (parses cdc) frames"
  shows "parse_stream cdc (concat frames) = ([], Inr (entries cdc 1 frames))"
    and "0 < length tail \<Longrightarrow> length tail < 120 \<Longrightarrow>
         parse_stream cdc (concat frames @ tail) =
           ([Warning_short (1 + length frames) (length tail)], Inr (entries cdc 1 frames))"
  using parse_loop_frames[OF assms, of "[]" "[]" 1] parse_loop_frames[OF assms, of tail "[]" 1]
  by (simp_all add: parse_stream_def parse_loop_end parse_loop_short)

text \<open>
  C4: for a Header, N Data records (N from 0) and a Trailer that build, the stream made
  of their frames in that order is read to its end without any message, and
  \<^verbatim>\<open>parse_stream\<close> returns N+2 entries: numbered 1 to N+2, of the kinds HEADER, N times
  DATA, TRAILER, the data of each entry being what its structure parses from the frame at
  that position of the stream.
\<close>

theorem stream_composition:
  assumes "Struct_build cdc HeaderRecord h = Inr hb"
    and "list_all2 (\<lambda>d b. Struct_build cdc DataRecord d = Inr b) ds dbs"
    and "Struct_build cdc TrailerRecord t = Inr tb"
  shows "\<exists>rs. parse_stream cdc (hb @ concat dbs @ tb) = ([], Inr rs) \<and>
              length rs = length ds + 2 \<and>
              map record_number rs = [1..<length ds + 3] \<and>
              map record_type rs = ''HEADER'' # replicate (length ds) ''DATA'' @ [''TRAILER''] \<and>
              map (\<lambda>r. Inr (data r)) rs =
                Struct_parse cdc HeaderRecord hb # map (Struct_parse cdc DataRecord) dbs @
                [Struct_parse cdc TrailerRecord tb]"
proof -
  let ?frames = "[hb] @ dbs @ [tb]"
  let ?rs = "entries cdc 1 ?frames"
  have n: "length dbs = length ds" using assms(2) by (simp add: list_all2_lengthD)
  have ph: "list_all (parses cdc) [hb]" using built_header_parses(2)[OF assms(1)] by simp
  have pd: "list_all (parses cdc) dbs" using assms(2) by (rule built_data_all_parse)
  have pt: "list_all (parses cdc) [tb]" using built_trailer_parses(2)[OF assms(3)] by simp
  have all: "list_all (parses cdc) ?frames" using ph pd pt by simp
  have split: "?rs = entries cdc 1 [hb] @ entries cdc (1 + length [hb]) dbs @
      entries cdc (1 + length [hb] + length dbs) [tb]"
    by (simp only: entries_append[OF ph] entries_append[OF pd])
  have "parse_stream cdc (concat ?frames) = ([], Inr ?rs)"
    using all by (rule parse_stream_frames(1))
  then have r1: "parse_stream cdc (hb @ concat dbs @ tb) = ([], Inr ?rs)" by simp
  have e: "length ds + 3 = 1 + length ?frames" using n by simp
  have r3: "map record_number ?rs = [1..<length ds + 3]"
    by (subst e) (rule entries_numbers[OF all])
  from arg_cong[OF r3, of length] have r2: "length ?rs = length ds + 2"
    by (simp only: length_map length_upt)
  have r4: "map record_type ?rs = ''HEADER'' # replicate (length ds) ''DATA'' @ [''TRAILER'']"
    unfolding split map_append
    using entries_header(1)[OF assms(1)] entries_data_types[OF assms(2)] entries_trailer(1)[OF assms(3)]
    by simp
  have r5: "map (\<lambda>r. Inr (data r)) ?rs =
      Struct_parse cdc HeaderRecord hb # map (Struct_parse cdc DataRecord) dbs @
      [Struct_parse cdc TrailerRecord tb]"
    unfolding split map_append
    using entries_header(2)[OF assms(1)] entries_data_values[OF assms(2)] entries_trailer(2)[OF assms(3)]
    by simp
  show ?thesis by (intro exI[of _ "?rs"] conjI) (rule r1 r2 r3 r4 r5)+
qed

theorem stream_composition_witness:
  "Struct_build sample_codec HeaderRecord example_header = Inr example_header_frame \<and>
   list_all2 (\<lambda>d b. Struct_build sample_codec DataRecord d = Inr b) [scenario_record] [scenario_frame] \<and>
   Struct_build sample_codec TrailerRecord example_trailer = Inr example_trailer_frame \<and>
   (\<exists>rs. parse_stream sample_codec (example_header_frame @ scenario_frame @ example_trailer_frame) =
           ([], Inr rs) \<and>
         length rs = 3 \<and>
         map record_number rs = [1, 2, 3] \<and>
         map record_type rs = [''HEADER'', ''DATA'', ''TRAILER''])"
proof -
  have d: "list_all2 (\<lambda>d b. Struct_build sample_codec DataRecord d = Inr b)
      [scenario_record] [scenario_frame]"
    using scenario_builds by simp
  have u: "[1..<4] = [1, 2, Suc 2]" by (simp add: upt_rec)
  from stream_composition[OF example_header_builds d example_trailer_builds]
  show ?thesis using example_header_builds d example_trailer_builds u by auto
qed

text \<open>
  C5: a stream of 120*(N+2) - 1 bytes made of the frames of a Header and of N Data
  records that build, followed by 119 more bytes: \<^verbatim>\<open>parse_stream\<close> prints the warning
  for the short record N+2 (119 bytes) and returns, without an exception, the N+1 entries
  of the complete frames; the 119 bytes are not parsed, whatever they are.
\<close>

theorem truncated_stream:
  assumes "Struct_build cdc HeaderRecord h = Inr hb"
    and "list_all2 (\<lambda>d b. Struct_build cdc DataRecord d = Inr b) ds dbs"
    and "length partial = 119"
  shows "\<exists>rs. length (hb @ concat dbs @ partial) = 120 * (length ds + 2) - 1 \<and>
              parse_stream cdc (hb @ concat dbs @ partial) =
                ([Warning_short (length ds + 2) 119], Inr rs) \<and>
              length rs = length ds + 1 \<and>
              map record_number rs = [1..<length ds + 2] \<and>
              map record_type rs = ''HEADER'' # replicate (length ds) ''DATA'' \<and>
              map (\<lambda>r. Inr (data r)) rs =
                Struct_parse cdc HeaderRecord hb # map (Struct_parse cdc DataRecord) dbs"
proof -
  let ?frames = "[hb] @ dbs"
  let ?rs = "entries cdc 1 ?frames"
  have n: "length dbs = length ds" using assms(2) by (simp add: list_all2_lengthD)
  have ph: "list_all (parses cdc) [hb]" using built_header_parses(2)[OF assms(1)] by simp
  have pd: "list_all (parses cdc) dbs" using assms(2) by (rule built_data_all_parse)
  have all: "list_all (parses cdc) ?frames" using ph pd by simp
  have split: "?rs = entries cdc 1 [hb] @ entries cdc (1 + length [hb]) dbs"
    by (simp only: entries_append[OF ph])
  have "length (concat dbs) = 120 * length dbs"
    using pd by (induction dbs) (auto simp: parses_def)
  moreover have "length hb = 120" using ph by (simp add: parses_def)
  ultimately have r0: "length (hb @ concat dbs @ partial) = 120 * (length ds + 2) - 1"
    using assms(3) n by simp
  have "parse_stream cdc (concat ?frames @ partial) =
      ([Warning_short (1 + length ?frames) (length partial)], Inr ?rs)"
    using all assms(3) by (intro parse_stream_frames(2)) simp_all
  then have r1: "parse_stream cdc (hb @ concat dbs @ partial) =
      ([Warning_short (length ds + 2) 119], Inr ?rs)"
    using assms(3) n by simp
  have e: "length ds + 2 = 1 + length ?frames" using n by simp
  have r3: "map record_number ?rs = [1..<length ds + 2]"
    by (subst e) (rule entries_numbers[OF all])
  from arg_cong[OF r3, of length] have r2: "length ?rs = length ds + 1"
    by (simp only: length_map length_upt)
  have r4: "map record_type ?rs = ''HEADER'' # replicate (length ds) ''DATA''"
    unfolding split map_append
    using entries_header(1)[OF assms(1)] entries_data_types[OF assms(2)]
    by simp
  have r5: "map (\<lambda>r. Inr (data r)) ?rs =
      Struct_parse cdc HeaderRecord hb # map (Struct_parse cdc DataRecord) dbs"
    unfolding split map_append
    using entries_header(2)[OF assms(1)] entries_data_values[OF assms(2)]
    by simp
  show ?thesis by (intro exI[of _ "?rs"] conjI) (rule r0 r1 r2 r3 r4 r5)+
qed

theorem truncated_stream_witness:
  "Struct_build sample_codec HeaderRecord example_header = Inr example_header_frame \<and>
   list_all2 (\<lambda>d b. Struct_build sample_codec DataRecord d = Inr b) [scenario_record] [scenario_frame] \<and>
   length (butlast example_trailer_frame) = 119 \<and>
   (\<exists>rs. parse_stream sample_codec (example_header_frame @ scenario_frame @ butlast example_trailer_frame) =
           ([Warning_short 3 119], Inr rs) \<and>
         length rs = 2 \<and>
         map record_number rs = [1, 2] \<and>
         map record_type rs = [''HEADER'', ''DATA''])"
proof -
  have d: "list_all2 (\<lambda>d b. Struct_build sample_codec DataRecord d = Inr b)
      [scenario_record] [scenario_frame]"
    using scenario_builds by simp
  have l: "length (butlast example_trailer_frame) = 119"
    by (simp add: example_trailer_frame_def)
  have u: "[1..<3] = [1, 2]" by (simp add: upt_rec)
  from truncated_stream[OF example_header_builds d l]
  show ?thesis using example_header_builds d l u by auto
qed

section \<open>The generator\<close>
















section \<open>Exit codes\<close>

















end
